theory Spec2Isabelle
  imports Main "HOL-Library.Word"
begin

unbundle bit_operations_syntax

section \<open>petabuf: the paged spool engine of \<^verbatim>\<open>petabuf.c\<close>\<close>

text \<open>
  The model follows \<^verbatim>\<open>petabuf.c\<close> function by function. The globals of the C file
  and the two locals \<^verbatim>\<open>ntoread\<close>, \<^verbatim>\<open>ntowrite\<close> of \<^verbatim>\<open>main\<close> form one record that
  is passed through every function. \<^verbatim>\<open>uint32_t\<close> is \<open>32 word\<close>, \<^verbatim>\<open>uint8_t\<close> is
  \<open>8 word\<close>, \<^verbatim>\<open>size_t\<close> is \<open>64 word\<close>. Every \<^verbatim>\<open>err\<close>, \<^verbatim>\<open>errx\<close> and failed
  \<^verbatim>\<open>assert\<close> is a value of type \<open>error\<close>. What the operating system answers
  (the result of \<^verbatim>\<open>select\<close>, \<^verbatim>\<open>read\<close>, \<^verbatim>\<open>write\<close>, \<^verbatim>\<open>mmap\<close>, ...) is an explicit
  input of the function that makes the call.

  The \<^verbatim>\<open>fprintf\<close> calls that log counters and cursors to stderr are not modelled; the
  usage line of the argument check is.
\<close>

subsection \<open>Constants\<close>

abbreviation PAGESZ :: "32 word" where "PAGESZ \<equiv> 0x1000000"
abbreviation TABLESZ :: "32 word" where "TABLESZ \<equiv> 0x4000000"
abbreviation PAGE_MAPPED :: "8 word" where "PAGE_MAPPED \<equiv> 0x1"
abbreviation PAGE_ONDISK :: "8 word" where "PAGE_ONDISK \<equiv> 0x2"

text \<open>\<^verbatim>\<open>PATH_MAX\<close> comes from \<^verbatim>\<open>limits.h\<close>; 1024 is the smallest value among the
  platforms the file names (OpenBSD, macOS: 1024; Linux: 4096).\<close>

abbreviation PATH_MAX :: nat where "PATH_MAX \<equiv> 1024"

subsection \<open>Data\<close>

type_synonym byte = "8 word"

text \<open>The bytes of one page, by offset.\<close>

type_synonym page = "nat \<Rightarrow> byte"

record paddr =
  idx :: "32 word"
  off :: "32 word"

text \<open>
  What a pointer stored in \<^verbatim>\<open>pages[]\<close> points to: a private anonymous mapping with
  its own bytes, or a \<^verbatim>\<open>MAP_SHARED\<close> view of the spool file of that path, whose bytes
  are the file's. \<open>None\<close> is a pointer with no valid mapping behind it.
\<close>

datatype mapping = Anon page | File_map string

record state =
  states :: "32 word \<Rightarrow> 8 word"
  pages :: "32 word \<Rightarrow> mapping option"
  files :: "string \<Rightarrow> page option"
  headroom :: bool
  nmapped :: "64 word"
  nondisk :: "64 word"
  nfree :: "64 word"
  rpos :: paddr
  wpos :: paddr
  ntoread :: "64 word"
  ntowrite :: "64 word"
  stdin_read :: "byte list"
  stdout_written :: "byte list"
  eof_seen :: bool

text \<open>
  \<open>files\<close> is the spool directory: the files created by this run that still exist, by
  path. \<open>stdin_read\<close> and \<open>stdout_written\<close> record the bytes that the \<^verbatim>\<open>read\<close> calls
  have delivered and the \<^verbatim>\<open>write\<close> calls have taken so far; \<open>eof_seen\<close> records that
  a \<^verbatim>\<open>read\<close> has returned 0. The program never reads these three fields.
\<close>

datatype assertion =
  Pin_idx | Unpin_idx | Free_idx | Free_not_pinned | Ptr_idx | Ptr_off | Ptr_mapped | Path_idx

datatype error =
  Allocating_pages | Allocating_states | Allocating_headroom | Memsize_error
| Getting_flags_stdin | Setting_flags_stdin | Getting_flags_stdout | Setting_flags_stdout
| Select_error | Read_error | Write_error | Out_of_pages
| Opening | Mapping | Closing | Allocating_page | Creating | Growing
| Unmapping_page | Unlinking | Freeing_page | Path_too_long
| Invalid_access
| Assertion assertion

definition bind_ok :: "error + 'a \<Rightarrow> ('a \<Rightarrow> error + 'b) \<Rightarrow> error + 'b" where
  "bind_ok m f = (case m of Inl e \<Rightarrow> Inl e | Inr x \<Rightarrow> f x)"

subsection \<open>What the operating system answers\<close>

datatype mmap_result = Mmap_ok | Mmap_enomem | Mmap_failed

text \<open>The answers to the system calls of one \<^verbatim>\<open>page_pin\<close>.\<close>

record pin_env =
  open_ok :: bool
  ftruncate_ok :: bool
  mmap_anon :: mmap_result
  mmap_file_ok :: bool
  close_ok :: bool

datatype select_result = Select_failed | Select_ready bool bool

text \<open>\<open>Read_bytes bs\<close>: \<^verbatim>\<open>read\<close> returned \<open>length bs\<close> and stored \<open>bs\<close>; \<open>[]\<close> is
  end of input. \<open>Write_count n\<close>: \<^verbatim>\<open>write\<close> returned \<open>n\<close>.\<close>

datatype read_result = Read_failed | Read_bytes "byte list"
datatype write_result = Write_failed | Write_count nat

text \<open>The answers to the system calls of one iteration of the loop of \<^verbatim>\<open>main\<close>.\<close>

record iter_env =
  ev_select :: select_result
  ev_read :: read_result
  ev_read_munmap_ok :: bool
  ev_read_pin :: pin_env
  ev_write :: write_result
  ev_write_munmap_ok :: bool
  ev_unlink_ok :: bool
  ev_free_munmap_ok :: bool
  ev_write_pin :: pin_env

subsection \<open>\<^verbatim>\<open>page_filepath\<close>\<close>

text \<open>The decimal digits of \<^verbatim>\<open>%zu\<close>.\<close>

definition digit :: "nat \<Rightarrow> char" where
  "digit d = ''0123456789'' ! d"

fun decimal :: "nat \<Rightarrow> string" where
  "decimal n =
     (if n < 10 then [digit n]
      else decimal (n div 10) @ [digit (n mod 10)])"

declare decimal.simps [simp del]

definition spool :: "32 word \<Rightarrow> string" where
  "spool i = ''/tmp/petabuf.'' @ decimal (unat i)"

definition page_filepath :: "32 word \<Rightarrow> error + string" where
  "page_filepath i =
     (if \<not> i < TABLESZ then Inl (Assertion Path_idx)
      else if length (spool i) \<ge> PATH_MAX then Inl Path_too_long
      else Inr (spool i))"

subsection \<open>\<^verbatim>\<open>page_pin\<close>\<close>

definition zero_page :: page where
  "zero_page = (\<lambda>_. 0)"

text \<open>The branch ``existing page on disk''. \<^verbatim>\<open>open\<close> without \<^verbatim>\<open>O_CREAT\<close> fails when
  the file does not exist.\<close>

definition pin_existing :: "pin_env \<Rightarrow> 32 word \<Rightarrow> state \<Rightarrow> error + state" where
  "pin_existing e i s =
     bind_ok (page_filepath i) (\<lambda>path.
       if \<not> open_ok e \<or> files s path = None then Inl Opening
       else if \<not> mmap_file_ok e then Inl Mapping
       else if \<not> close_ok e then Inl Closing
       else Inr (s\<lparr>pages := (pages s)(i := Some (File_map path)),
                   states := (states s)(i := states s i OR PAGE_MAPPED),
                   nmapped := nmapped s + 1\<rparr>))"

text \<open>The code at the label \<^verbatim>\<open>ondisk\<close>: ``new page on disk''. \<^verbatim>\<open>O_TRUNC\<close> and
  \<^verbatim>\<open>ftruncate\<close> leave a file of \<^verbatim>\<open>PAGESZ\<close> zero bytes.\<close>

definition pin_ondisk :: "pin_env \<Rightarrow> 32 word \<Rightarrow> state \<Rightarrow> error + state" where
  "pin_ondisk e i s =
     bind_ok (page_filepath i) (\<lambda>path.
       if \<not> open_ok e then Inl Creating
       else if \<not> ftruncate_ok e then Inl Growing
       else if \<not> mmap_file_ok e then Inl Mapping
       else if \<not> close_ok e then Inl Closing
       else Inr (s\<lparr>files := (files s)(path := Some zero_page),
                   pages := (pages s)(i := Some (File_map path)),
                   states := (states s)(i := states s i OR (PAGE_MAPPED OR PAGE_ONDISK)),
                   nmapped := nmapped s + 1,
                   nondisk := nondisk s + 1\<rparr>))"

definition page_pin :: "pin_env \<Rightarrow> 32 word \<Rightarrow> state \<Rightarrow> error + state" where
  "page_pin e i s =
     (if \<not> i < TABLESZ then Inl (Assertion Pin_idx)
      else if states s i AND PAGE_MAPPED \<noteq> 0 then Inr s
      else if states s i AND PAGE_ONDISK \<noteq> 0 then pin_existing e i s
      else if nfree s \<noteq> 0 then
        (case mmap_anon e of
           Mmap_ok \<Rightarrow>
             Inr (s\<lparr>pages := (pages s)(i := Some (Anon zero_page)),
                    states := (states s)(i := states s i OR PAGE_MAPPED),
                    nmapped := nmapped s + 1,
                    nfree := nfree s - 1\<rparr>)
         | Mmap_failed \<Rightarrow> Inl Allocating_page
         | Mmap_enomem \<Rightarrow> pin_ondisk e i (s\<lparr>nfree := 0, headroom := False\<rparr>))
      else pin_ondisk e i s)"

subsection \<open>\<^verbatim>\<open>page_unpin\<close> and \<^verbatim>\<open>page_free\<close>\<close>

definition page_unpin :: "bool \<Rightarrow> 32 word \<Rightarrow> state \<Rightarrow> error + state" where
  "page_unpin munmap_ok i s =
     (if \<not> i < TABLESZ then Inl (Assertion Unpin_idx)
      else if \<not> states s i AND PAGE_MAPPED \<noteq> 0 then Inr s
      else if states s i AND PAGE_ONDISK \<noteq> 0 then
        (if \<not> munmap_ok then Inl Unmapping_page
         else Inr (s\<lparr>pages := (pages s)(i := None),
                     states := (states s)(i := states s i AND NOT PAGE_MAPPED),
                     nmapped := nmapped s - 1\<rparr>))
      else Inr s)"

text \<open>\<^verbatim>\<open>unlink\<close> fails when the file does not exist.\<close>

definition page_free :: "bool \<Rightarrow> bool \<Rightarrow> 32 word \<Rightarrow> state \<Rightarrow> error + state" where
  "page_free unlink_ok munmap_ok i s =
     (if \<not> i < TABLESZ then Inl (Assertion Free_idx)
      else if states s i AND PAGE_ONDISK \<noteq> 0 then
        (if states s i AND PAGE_MAPPED \<noteq> 0 then Inl (Assertion Free_not_pinned)
         else bind_ok (page_filepath i) (\<lambda>path.
           if \<not> unlink_ok \<or> files s path = None then Inl Unlinking
           else Inr (s\<lparr>files := (files s)(path := None),
                       states := (states s)(i := states s i AND NOT PAGE_ONDISK),
                       nondisk := nondisk s - 1\<rparr>)))
      else if states s i AND PAGE_MAPPED \<noteq> 0 then
        (if \<not> munmap_ok then Inl Freeing_page
         else Inr (s\<lparr>pages := (pages s)(i := None),
                     states := (states s)(i := states s i AND NOT PAGE_MAPPED),
                     nmapped := nmapped s - 1,
                     nfree := nfree s + 1\<rparr>))
      else Inr s)"

subsection \<open>\<^verbatim>\<open>page_ptr\<close> and access through the pointer\<close>

text \<open>The pointer \<^verbatim>\<open>pages[addr.idx] + addr.off\<close> is the pair of the slot whose mapping
  it points into and the offset.\<close>

definition page_ptr :: "paddr \<Rightarrow> state \<Rightarrow> error + (32 word \<times> 32 word)" where
  "page_ptr addr s =
     (if \<not> idx addr < TABLESZ then Inl (Assertion Ptr_idx)
      else if \<not> off addr < PAGESZ then Inl (Assertion Ptr_off)
      else if \<not> states s (idx addr) AND PAGE_MAPPED \<noteq> 0 then Inl (Assertion Ptr_mapped)
      else Inr (idx addr, off addr))"

definition blit :: "page \<Rightarrow> nat \<Rightarrow> byte list \<Rightarrow> page" where
  "blit c k bs = (\<lambda>j. if k \<le> j \<and> j < k + length bs then bs ! (j - k) else c j)"

definition peek :: "page \<Rightarrow> nat \<Rightarrow> nat \<Rightarrow> byte list" where
  "peek c k n = map c [k ..< k + n]"

text \<open>What the kernel does with the buffer of \<^verbatim>\<open>read\<close>: it stores the bytes at the
  pointer. A store through a shared file mapping changes the file.\<close>

definition store_bytes :: "32 word \<times> 32 word \<Rightarrow> byte list \<Rightarrow> state \<Rightarrow> error + state" where
  "store_bytes p bs s =
     (case pages s (fst p) of
        None \<Rightarrow> Inl Invalid_access
      | Some (Anon c) \<Rightarrow>
          Inr (s\<lparr>pages := (pages s)(fst p := Some (Anon (blit c (unat (snd p)) bs)))\<rparr>)
      | Some (File_map path) \<Rightarrow>
          (case files s path of
             None \<Rightarrow> Inl Invalid_access
           | Some c \<Rightarrow> Inr (s\<lparr>files := (files s)(path := Some (blit c (unat (snd p)) bs))\<rparr>)))"

text \<open>What the kernel does with the buffer of \<^verbatim>\<open>write\<close>: it takes \<open>n\<close> bytes from the
  pointer.\<close>

definition load_bytes :: "32 word \<times> 32 word \<Rightarrow> nat \<Rightarrow> state \<Rightarrow> error + byte list" where
  "load_bytes p n s =
     (case pages s (fst p) of
        None \<Rightarrow> Inl Invalid_access
      | Some (Anon c) \<Rightarrow> Inr (peek c (unat (snd p)) n)
      | Some (File_map path) \<Rightarrow>
          (case files s path of
             None \<Rightarrow> Inl Invalid_access
           | Some c \<Rightarrow> Inr (peek c (unat (snd p)) n)))"

subsection \<open>The loop of \<^verbatim>\<open>main\<close>\<close>

text \<open>Lines 153 to 162: the intake cursor \<^verbatim>\<open>rpos\<close> after a \<^verbatim>\<open>read\<close> of \<open>n\<close> bytes.\<close>

definition advance_rpos :: "iter_env \<Rightarrow> nat \<Rightarrow> state \<Rightarrow> error + state" where
  "advance_rpos e n s =
     (let s1 = s\<lparr>rpos := (rpos s)\<lparr>off := off (rpos s) + of_nat n\<rparr>\<rparr> in
      bind_ok
        (if off (rpos s1) = PAGESZ then
           bind_ok (if idx (rpos s1) \<noteq> idx (wpos s1)
                    then page_unpin (ev_read_munmap_ok e) (idx (rpos s1)) s1 else Inr s1)
             (\<lambda>s2.
                let s3 = s2\<lparr>rpos := (rpos s2)\<lparr>idx := idx (rpos s2) + 1\<rparr>\<rparr> in
                if idx (rpos s3) \<ge> TABLESZ then Inl Out_of_pages
                else bind_ok (page_pin (ev_read_pin e) (idx (rpos s3)) s3)
                       (\<lambda>s4. Inr (s4\<lparr>rpos := (rpos s4)\<lparr>off := 0\<rparr>\<rparr>)))
         else Inr s1)
        (\<lambda>s5. Inr (s5\<lparr>ntoread := ucast (PAGESZ - off (rpos s5))\<rparr>)))"

text \<open>Lines 144 to 163: the branch taken when stdin is readable.\<close>

definition on_readable :: "iter_env \<Rightarrow> state \<Rightarrow> error + state" where
  "on_readable e s =
     bind_ok (page_ptr (rpos s) s) (\<lambda>p.
       case ev_read e of
         Read_failed \<Rightarrow> Inl Read_error
       | Read_bytes bs \<Rightarrow>
           if bs = [] then Inr (s\<lparr>ntoread := 0, eof_seen := True\<rparr>)
           else bind_ok (store_bytes p bs s) (\<lambda>s1.
                  advance_rpos e (length bs) (s1\<lparr>stdin_read := stdin_read s1 @ bs\<rparr>)))"

text \<open>Lines 174 to 179: the drain cursor \<^verbatim>\<open>wpos\<close> after a \<^verbatim>\<open>write\<close> of \<open>n\<close> bytes.\<close>

definition advance_wpos :: "iter_env \<Rightarrow> nat \<Rightarrow> state \<Rightarrow> error + state" where
  "advance_wpos e n s =
     (let s1 = s\<lparr>wpos := (wpos s)\<lparr>off := off (wpos s) + of_nat n\<rparr>\<rparr> in
      if off (wpos s1) = PAGESZ then
        bind_ok (page_unpin (ev_write_munmap_ok e) (idx (wpos s1)) s1) (\<lambda>s2.
        bind_ok (page_free (ev_unlink_ok e) (ev_free_munmap_ok e) (idx (wpos s2)) s2) (\<lambda>s3.
          let s4 = s3\<lparr>wpos := (wpos s3)\<lparr>idx := idx (wpos s3) + 1\<rparr>\<rparr> in
          bind_ok (page_pin (ev_write_pin e) (idx (wpos s4)) s4)
            (\<lambda>s5. Inr (s5\<lparr>wpos := (wpos s5)\<lparr>off := 0\<rparr>\<rparr>))))
      else Inr s1)"

text \<open>Lines 167 to 179: the branch taken when stdout is writable.\<close>

definition on_writable :: "iter_env \<Rightarrow> state \<Rightarrow> error + state" where
  "on_writable e s =
     bind_ok (page_ptr (wpos s) s) (\<lambda>p.
       case ev_write e of
         Write_failed \<Rightarrow> Inl Write_error
       | Write_count n \<Rightarrow>
           bind_ok (load_bytes p n s) (\<lambda>bs.
             advance_wpos e n (s\<lparr>stdout_written := stdout_written s @ bs\<rparr>)))"

text \<open>Lines 128 to 183: one iteration. The two descriptor sets are built from
  \<^verbatim>\<open>ntoread\<close> and \<^verbatim>\<open>ntowrite\<close> as they are at the top of the iteration.\<close>

definition iter :: "iter_env \<Rightarrow> state \<Rightarrow> error + state" where
  "iter e s =
     (case ev_select e of
        Select_failed \<Rightarrow> Inl Select_error
      | Select_ready r w \<Rightarrow>
          bind_ok (if ntoread s \<noteq> 0 \<and> r then on_readable e s else Inr s) (\<lambda>s1.
          bind_ok (if ntowrite s \<noteq> 0 \<and> w then on_writable e s1 else Inr s1) (\<lambda>s2.
            Inr (s2\<lparr>ntowrite :=
                      ucast ((if idx (wpos s2) = idx (rpos s2) then off (rpos s2) else PAGESZ)
                             - off (wpos s2))\<rparr>))))"

text \<open>The loop, run on the answers of the operating system for as many iterations as
  the list has. The result is the state at the loop head that was reached.\<close>

fun main_loop :: "iter_env list \<Rightarrow> state \<Rightarrow> error + state" where
  "main_loop [] s = Inr s"
| "main_loop (e # es) s =
     (if ntoread s \<noteq> 0 \<or> ntowrite s \<noteq> 0 then bind_ok (iter e s) (main_loop es)
      else Inr s)"

definition loop_exited :: "state \<Rightarrow> bool" where
  "loop_exited s = (\<not> (ntoread s \<noteq> 0 \<or> ntowrite s \<noteq> 0))"

subsection \<open>Start of \<^verbatim>\<open>main\<close>\<close>

record boot_env =
  malloc_pages_ok :: bool
  malloc_states_ok :: bool
  malloc_headroom_ok :: bool
  table0 :: "32 word \<Rightarrow> 8 word"
  get_memsize :: "64 word option"
  fcntl_getfl_stdin_ok :: bool
  fcntl_setfl_stdin_ok :: bool
  fcntl_getfl_stdout_ok :: bool
  fcntl_setfl_stdout_ok :: bool
  pin0 :: pin_env

text \<open>
  \<open>table0\<close> is the content of the array that \<^verbatim>\<open>malloc\<close> returned for \<^verbatim>\<open>states\<close>; the
  program does not clear it. The other globals are static and start at zero.
\<close>

definition startup :: "boot_env \<Rightarrow> error + state" where
  "startup b =
     (if \<not> malloc_pages_ok b then Inl Allocating_pages
      else if \<not> malloc_states_ok b then Inl Allocating_states
      else if \<not> malloc_headroom_ok b then Inl Allocating_headroom
      else case get_memsize b of
        None \<Rightarrow> Inl Memsize_error
      | Some memsize \<Rightarrow>
          if \<not> fcntl_getfl_stdin_ok b then Inl Getting_flags_stdin
          else if \<not> fcntl_setfl_stdin_ok b then Inl Setting_flags_stdin
          else if \<not> fcntl_getfl_stdout_ok b then Inl Getting_flags_stdout
          else if \<not> fcntl_setfl_stdout_ok b then Inl Setting_flags_stdout
          else bind_ok
            (page_pin (pin0 b) 0
               \<lparr>states = table0 b, pages = (\<lambda>_. None), files = (\<lambda>_. None),
                headroom = True, nmapped = 0, nondisk = 0,
                nfree = memsize div ucast PAGESZ div 2,
                rpos = \<lparr>idx = 0, off = 0\<rparr>, wpos = \<lparr>idx = 0, off = 0\<rparr>,
                ntoread = 0, ntowrite = 0,
                stdin_read = [], stdout_written = [], eof_seen = False\<rparr>)
            (\<lambda>s. Inr (s\<lparr>ntoread := ucast PAGESZ, ntowrite := 0\<rparr>)))"

text \<open>Lines 92 to 97. \<^verbatim>\<open>getopt\<close> is the C library's: its return value, the value it
  leaves in \<^verbatim>\<open>optind\<close> and the lines it prints on stderr itself are inputs.\<close>

record args =
  argc :: int
  getopt_ret :: int
  optind :: int
  getopt_diag :: "string list"

definition usage_line :: string where
  "usage_line = ''usage: ... | petabuf | ...''"

datatype outcome =
  Usage_exit int "string list"
| Died error
| Returned int state
| Still_running state

definition main :: "args \<Rightarrow> boot_env \<Rightarrow> iter_env list \<Rightarrow> outcome" where
  "main a b es =
     (if getopt_ret a \<noteq> - 1 then Usage_exit 1 (getopt_diag a)
      else if argc a \<noteq> optind a then Usage_exit 1 (getopt_diag a @ [usage_line])
      else case bind_ok (startup b) (main_loop es) of
             Inl err \<Rightarrow> Died err
           | Inr s \<Rightarrow> if loop_exited s then Returned 0 s else Still_running s)"

text \<open>What the run has put on stdout and on stderr (the usage line and what
  \<^verbatim>\<open>getopt\<close> printed; the log lines are not modelled).\<close>

fun stdout_of :: "outcome \<Rightarrow> byte list" where
  "stdout_of (Usage_exit c ls) = []"
| "stdout_of (Died e) = []"
| "stdout_of (Returned c s) = stdout_written s"
| "stdout_of (Still_running s) = stdout_written s"

subsection \<open>What POSIX promises about \<^verbatim>\<open>read\<close> and \<^verbatim>\<open>write\<close>\<close>

text \<open>\<^verbatim>\<open>read\<close> returns at most the count it was given, \<^verbatim>\<open>ntoread\<close>, and \<^verbatim>\<open>write\<close>
  at most \<^verbatim>\<open>ntowrite\<close>. \<open>posix_run\<close> says so of every iteration that a run executes.\<close>

definition posix :: "iter_env \<Rightarrow> state \<Rightarrow> bool" where
  "posix e s =
     ((case ev_read e of Read_failed \<Rightarrow> True | Read_bytes bs \<Rightarrow> length bs \<le> unat (ntoread s))
      \<and> (case ev_write e of Write_failed \<Rightarrow> True | Write_count n \<Rightarrow> n \<le> unat (ntowrite s)))"

fun posix_run :: "iter_env list \<Rightarrow> state \<Rightarrow> bool" where
  "posix_run [] s = True"
| "posix_run (e # es) s =
     (if ntoread s \<noteq> 0 \<or> ntowrite s \<noteq> 0
      then posix e s \<and> (case iter e s of Inl err \<Rightarrow> True | Inr s' \<Rightarrow> posix_run es s')
      else True)"

text \<open>The state at the loop head that \<^verbatim>\<open>main\<close> reaches after the start and the
  iterations \<open>es\<close>: every iteration boundary of every run is \<open>run b es\<close> for some
  \<open>b\<close> and \<open>es\<close>. \<open>posix_main\<close> is \<open>posix_run\<close> from the state after the start.\<close>

definition run :: "boot_env \<Rightarrow> iter_env list \<Rightarrow> error + state" where
  "run b es = bind_ok (startup b) (main_loop es)"

definition posix_main :: "boot_env \<Rightarrow> iter_env list \<Rightarrow> bool" where
  "posix_main b es = (case startup b of Inl err \<Rightarrow> True | Inr s0 \<Rightarrow> posix_run es s0)"

subsection \<open>The properties of the state that the claims speak of\<close>

definition mapped :: "state \<Rightarrow> 32 word \<Rightarrow> bool" where
  "mapped s i = (states s i AND PAGE_MAPPED \<noteq> 0)"

definition ondisk :: "state \<Rightarrow> 32 word \<Rightarrow> bool" where
  "ondisk s i = (states s i AND PAGE_ONDISK \<noteq> 0)"

text \<open>The lexicographic order on \<open>(idx, off)\<close>.\<close>

definition lex_le :: "paddr \<Rightarrow> paddr \<Rightarrow> bool" where
  "lex_le a b = (idx a < idx b \<or> (idx a = idx b \<and> off a \<le> off b))"

text \<open>The cursors at the head of the loop: both inside the table and inside their
  page, the drain cursor \<^verbatim>\<open>wpos\<close> not beyond the intake cursor \<^verbatim>\<open>rpos\<close>, and the two
  counts as lines 149, 162 and 182 compute them.\<close>

definition cursors_ok :: "state \<Rightarrow> bool" where
  "cursors_ok s =
     (idx (rpos s) < TABLESZ \<and> off (rpos s) < PAGESZ \<and> off (wpos s) < PAGESZ
      \<and> lex_le (wpos s) (rpos s)
      \<and> ntoread s = (if eof_seen s then 0 else ucast (PAGESZ - off (rpos s))))"

definition ntowrite_ok :: "state \<Rightarrow> bool" where
  "ntowrite_ok s =
     (ntowrite s =
        ucast ((if idx (wpos s) = idx (rpos s) then off (rpos s) else PAGESZ) - off (wpos s)))"

text \<open>The table at the head of the loop: nothing outside the two cursors' indices,
  both cursors' slots mapped, and a slot strictly between them either mapped in memory
  or on disk and unmapped.\<close>

definition table_ok :: "state \<Rightarrow> bool" where
  "table_ok s =
     (\<forall>i. (i < idx (wpos s) \<or> idx (rpos s) < i \<longrightarrow> \<not> mapped s i \<and> \<not> ondisk s i)
        \<and> (i = idx (wpos s) \<or> i = idx (rpos s) \<longrightarrow> mapped s i)
        \<and> (idx (wpos s) < i \<and> i < idx (rpos s) \<longrightarrow> mapped s i \<noteq> ondisk s i))"

text \<open>The bytes between the drain cursor and the intake cursor that lie in the drain
  cursor's page: what line 182 computes, as a number.\<close>

definition avail :: "state \<Rightarrow> nat" where
  "avail s = unat (if idx (wpos s) = idx (rpos s) then off (rpos s) else PAGESZ)
             - unat (off (wpos s))"


text \<open>A property of the state that every step of the intake side of the loop keeps:
  \<^verbatim>\<open>page_unpin\<close>, \<^verbatim>\<open>page_pin\<close>, a store through a page pointer, and the assignments
  to the cursors, the two counts and the record of the input and output. A
  \<open>stable\<close> property is also kept by \<^verbatim>\<open>page_free\<close>, and so by the whole loop.\<close>

definition intake_stable :: "(state \<Rightarrow> bool) \<Rightarrow> bool" where
  "intake_stable P =
     ((\<forall>m i s s'. page_unpin m i s = Inr s' \<longrightarrow> P s \<longrightarrow> P s')
      \<and> (\<forall>e i s s'. page_pin e i s = Inr s' \<longrightarrow> P s \<longrightarrow> P s')
      \<and> (\<forall>p bs s s'. store_bytes p bs s = Inr s' \<longrightarrow> P s \<longrightarrow> P s')
      \<and> (\<forall>s x. P s \<longrightarrow> P (s\<lparr>rpos := x\<rparr>))
      \<and> (\<forall>s x. P s \<longrightarrow> P (s\<lparr>wpos := x\<rparr>))
      \<and> (\<forall>s x. P s \<longrightarrow> P (s\<lparr>ntoread := x\<rparr>))
      \<and> (\<forall>s x. P s \<longrightarrow> P (s\<lparr>ntowrite := x\<rparr>))
      \<and> (\<forall>s x. P s \<longrightarrow> P (s\<lparr>stdin_read := x\<rparr>))
      \<and> (\<forall>s x. P s \<longrightarrow> P (s\<lparr>stdout_written := x\<rparr>))
      \<and> (\<forall>s x. P s \<longrightarrow> P (s\<lparr>eof_seen := x\<rparr>)))"


text \<open>A page that lives in anonymous memory: mapped and not on disk.\<close>

definition memory_only :: "state \<Rightarrow> 32 word \<Rightarrow> bool" where
  "memory_only s i = (mapped s i \<and> \<not> ondisk s i)"

text \<open>From \<open>s\<close> to \<open>s'\<close> no page was placed in anonymous memory, and the budget is
  empty at \<open>s'\<close>.\<close>

definition no_new_memory :: "state \<Rightarrow> state \<Rightarrow> bool" where
  "no_new_memory s s' = (nfree s' = 0 \<and> (\<forall>j. memory_only s' j \<longrightarrow> memory_only s j))"

text \<open>What backs a page: a page in anonymous memory has an anonymous mapping behind
  its pointer, a mapped page on disk a shared mapping of its own spool file, and the
  spool file of a slot exists exactly while the slot is \<^verbatim>\<open>PAGE_ONDISK\<close>.\<close>

definition backing_ok :: "state \<Rightarrow> bool" where
  "backing_ok s =
     (\<forall>i. (memory_only s i \<longrightarrow> (\<exists>c. pages s i = Some (Anon c)))
        \<and> (mapped s i \<and> ondisk s i \<longrightarrow> pages s i = Some (File_map (spool i)))
        \<and> (ondisk s i \<longleftrightarrow> files s (spool i) \<noteq> None))"

text \<open>The bytes of page \<open>i\<close>, wherever they are: in its spool file when the page is on
  disk, in its anonymous mapping otherwise.\<close>

definition content :: "state \<Rightarrow> 32 word \<Rightarrow> page option" where
  "content s i =
     (if ondisk s i then files s (spool i)
      else case pages s i of Some (Anon c) \<Rightarrow> Some c | Some (File_map path) \<Rightarrow> None
           | None \<Rightarrow> None)"

text \<open>The position of a cursor in the stream, and the buffer between the cursors: the
  bytes read so far number \<open>pos rpos\<close>, the first \<open>pos wpos\<close> of them have been written,
  in order, and each of the others is held in its page at its offset.\<close>

definition pos :: "paddr \<Rightarrow> nat" where
  "pos a = unat (idx a) * 16777216 + unat (off a)"

definition data_ok :: "state \<Rightarrow> bool" where
  "data_ok s =
     (length (stdin_read s) = pos (rpos s)
      \<and> stdout_written s = take (pos (wpos s)) (stdin_read s)
      \<and> (\<forall>i k. k < 16777216 \<and> pos (wpos s) \<le> unat i * 16777216 + k
               \<and> unat i * 16777216 + k < pos (rpos s)
            \<longrightarrow> (\<exists>c. content s i = Some c
                    \<and> c k = stdin_read s ! (unat i * 16777216 + k))))"

subsection \<open>Concrete environments\<close>

text \<open>An operating system on which every call of a \<^verbatim>\<open>page_pin\<close> succeeds, a start
  with \<open>m\<close> bytes of memory reported and a zero-filled table, and an iteration in which
  \<^verbatim>\<open>select\<close> reports stdin readable (\<open>r\<close>, the \<^verbatim>\<open>read\<close> then delivers \<open>bs\<close>) and
  stdout writable (\<open>w\<close>, the \<^verbatim>\<open>write\<close> then takes \<open>n\<close> bytes).\<close>

definition all_ok :: pin_env where
  "all_ok = \<lparr>open_ok = True, ftruncate_ok = True, mmap_anon = Mmap_ok,
     mmap_file_ok = True, close_ok = True\<rparr>"

definition boot_with :: "64 word \<Rightarrow> boot_env" where
  "boot_with m = \<lparr>malloc_pages_ok = True, malloc_states_ok = True,
     malloc_headroom_ok = True, table0 = (\<lambda>_. 0), get_memsize = Some m,
     fcntl_getfl_stdin_ok = True, fcntl_setfl_stdin_ok = True,
     fcntl_getfl_stdout_ok = True, fcntl_setfl_stdout_ok = True, pin0 = all_ok\<rparr>"

definition io :: "bool \<Rightarrow> byte list \<Rightarrow> bool \<Rightarrow> nat \<Rightarrow> iter_env" where
  "io r bs w n = \<lparr>ev_select = Select_ready r w, ev_read = Read_bytes bs,
     ev_read_munmap_ok = True, ev_read_pin = all_ok, ev_write = Write_count n,
     ev_write_munmap_ok = True, ev_unlink_ok = True, ev_free_munmap_ok = True,
     ev_write_pin = all_ok\<rparr>"

text \<open>An iteration that reads \<open>bs\<close> and in which the anonymous \<^verbatim>\<open>mmap\<close> of the
  intake cursor's \<^verbatim>\<open>page_pin\<close> fails with \<^verbatim>\<open>ENOMEM\<close>.\<close>

definition io_enomem :: "byte list \<Rightarrow> iter_env" where
  "io_enomem bs = (io True bs False 0)\<lparr>ev_read_pin := all_ok\<lparr>mmap_anon := Mmap_enomem\<rparr>\<rparr>"

text \<open>An invocation with one unknown flag, as a BSD \<^verbatim>\<open>getopt\<close> reports it.\<close>

definition flag_args :: args where
  "flag_args = \<lparr>argc = 2, getopt_ret = 63, optind = 2,
     getopt_diag = [''petabuf: unknown option -- x'']\<rparr>"

definition no_args :: args where
  "no_args = \<lparr>argc = 1, getopt_ret = - 1, optind = 1, getopt_diag = []\<rparr>"

section \<open>Basic facts\<close>

lemma and_not_mapped [simp]:
  "((x::8 word) AND - 2) AND 1 = 0" "((x::8 word) AND - 2) AND 2 = x AND 2"
  by (simp_all add: and.assoc)

lemma and_not_ondisk [simp]:
  "((x::8 word) AND - 3) AND 2 = 0" "((x::8 word) AND - 3) AND 1 = x AND 1"
  by (simp_all add: and.assoc)

lemma or_mapped [simp]:
  "((x::8 word) OR 1) AND 1 = 1" "((x::8 word) OR 1) AND 2 = x AND 2"
  by (simp_all add: bit.conj_disj_distrib2)

lemma or_both [simp]:
  "((x::8 word) OR 3) AND 2 = 2" "((x::8 word) OR 3) AND 1 = 1"
  by (simp_all add: bit.conj_disj_distrib2)

lemma bind_ok_Inr [simp]: "bind_ok (Inr x) f = f x"
  by (simp add: bind_ok_def)

lemma bind_ok_Inl [simp]: "bind_ok (Inl e) f = Inl e"
  by (simp add: bind_ok_def)

lemma bind_ok_eq_Inr:
  "bind_ok m f = Inr y \<longleftrightarrow> (\<exists>x. m = Inr x \<and> f x = Inr y)"
  by (cases m) simp_all

lemma bind_ok_eq_Inl:
  "bind_ok m f = Inl e \<longleftrightarrow> m = Inl e \<or> (\<exists>x. m = Inr x \<and> f x = Inl e)"
  by (cases m) simp_all

lemma page_filepath_cases:
  "page_filepath i = Inl (Assertion Path_idx) \<or> page_filepath i = Inl Path_too_long
   \<or> page_filepath i = Inr (spool i)"
  by (simp add: page_filepath_def)

section \<open>What the page operations do\<close>

lemma unat_ucast_32_64 [simp]: "unat (ucast (x::32 word) :: 64 word) = unat x"
proof -
  have "unat x < 2 ^ 32" using unsigned_less [of x] by simp
  then have "unat x < 2 ^ 64" by simp
  then show ?thesis by (simp add: unsigned_ucast_eq take_bit_nat_eq_self)
qed

lemma ucast_32_64_eq_0 [simp]: "(ucast (x::32 word) :: 64 word) = 0 \<longleftrightarrow> x = 0"
  by (metis unat_ucast_32_64 unat_0_iff)

lemma mapped_frame [simp]:
  "mapped (s\<lparr>rpos := r\<rparr>) = mapped s" "mapped (s\<lparr>wpos := r\<rparr>) = mapped s"
  "mapped (s\<lparr>ntoread := x\<rparr>) = mapped s" "mapped (s\<lparr>ntowrite := x\<rparr>) = mapped s"
  "mapped (s\<lparr>stdin_read := bs\<rparr>) = mapped s" "mapped (s\<lparr>stdout_written := bs\<rparr>) = mapped s"
  "mapped (s\<lparr>eof_seen := b\<rparr>) = mapped s" "mapped (s\<lparr>pages := pg\<rparr>) = mapped s"
  "mapped (s\<lparr>files := fs\<rparr>) = mapped s"
  by (rule ext, simp add: mapped_def)+

lemma ondisk_frame [simp]:
  "ondisk (s\<lparr>rpos := r\<rparr>) = ondisk s" "ondisk (s\<lparr>wpos := r\<rparr>) = ondisk s"
  "ondisk (s\<lparr>ntoread := x\<rparr>) = ondisk s" "ondisk (s\<lparr>ntowrite := x\<rparr>) = ondisk s"
  "ondisk (s\<lparr>stdin_read := bs\<rparr>) = ondisk s" "ondisk (s\<lparr>stdout_written := bs\<rparr>) = ondisk s"
  "ondisk (s\<lparr>eof_seen := b\<rparr>) = ondisk s" "ondisk (s\<lparr>pages := pg\<rparr>) = ondisk s"
  "ondisk (s\<lparr>files := fs\<rparr>) = ondisk s"
  by (rule ext, simp add: ondisk_def)+

lemma page_unpin_Inr:
  "page_unpin m i s = Inr s' \<Longrightarrow>
     s' = (if mapped s i \<and> ondisk s i
           then s\<lparr>pages := (pages s)(i := None),
                  states := (states s)(i := states s i AND NOT PAGE_MAPPED),
                  nmapped := nmapped s - 1\<rparr>
           else s)"
  by (auto simp: page_unpin_def mapped_def ondisk_def split: if_splits)

lemma page_unpin_E:
  assumes "page_unpin m i s = Inr s'"
  obtains "rpos s' = rpos s" "wpos s' = wpos s" "ntoread s' = ntoread s"
    "ntowrite s' = ntowrite s" "eof_seen s' = eof_seen s" "stdin_read s' = stdin_read s"
    "stdout_written s' = stdout_written s" "nfree s' = nfree s"
    "mapped s' = (\<lambda>j. mapped s j \<and> \<not> (j = i \<and> ondisk s i))" "ondisk s' = ondisk s"
proof
  note eq = page_unpin_Inr [OF assms]
  show "mapped s' = (\<lambda>j. mapped s j \<and> \<not> (j = i \<and> ondisk s i))"
    by (rule ext) (auto simp: eq mapped_def ondisk_def)
  show "ondisk s' = ondisk s"
    by (rule ext) (auto simp: eq mapped_def ondisk_def)
qed (simp_all add: page_unpin_Inr [OF assms])


lemma page_free_Inr:
  "page_free u m i s = Inr s' \<Longrightarrow>
     s' = (if ondisk s i
           then s\<lparr>files := (files s)(spool i := None),
                  states := (states s)(i := states s i AND NOT PAGE_ONDISK),
                  nondisk := nondisk s - 1\<rparr>
           else if mapped s i
           then s\<lparr>pages := (pages s)(i := None),
                  states := (states s)(i := states s i AND NOT PAGE_MAPPED),
                  nmapped := nmapped s - 1,
                  nfree := nfree s + 1\<rparr>
           else s)
     \<and> \<not> (ondisk s i \<and> mapped s i) \<and> (ondisk s i \<longrightarrow> files s (spool i) \<noteq> None)"
  using page_filepath_cases [of i]
  by (auto simp: page_free_def mapped_def ondisk_def split: if_splits)

lemma page_free_E:
  assumes "page_free u m i s = Inr s'"
  obtains "rpos s' = rpos s" "wpos s' = wpos s" "ntoread s' = ntoread s"
    "ntowrite s' = ntowrite s" "eof_seen s' = eof_seen s" "stdin_read s' = stdin_read s"
    "stdout_written s' = stdout_written s"
    "nfree s' = (if mapped s i \<and> \<not> ondisk s i then nfree s + 1 else nfree s)"
    "mapped s' = (\<lambda>j. mapped s j \<and> j \<noteq> i)" "ondisk s' = (\<lambda>j. ondisk s j \<and> j \<noteq> i)"
proof
  note eq = page_free_Inr [OF assms, THEN conjunct1]
  note nb = page_free_Inr [OF assms, THEN conjunct2, THEN conjunct1]
  show "mapped s' = (\<lambda>j. mapped s j \<and> j \<noteq> i)"
    using nb by (intro ext) (auto simp: eq mapped_def ondisk_def)
  show "ondisk s' = (\<lambda>j. ondisk s j \<and> j \<noteq> i)"
    using nb by (intro ext) (auto simp: eq mapped_def ondisk_def)
  show "nfree s' = (if mapped s i \<and> \<not> ondisk s i then nfree s + 1 else nfree s)"
    using nb by (auto simp: eq)
qed (simp_all add: page_free_Inr [OF assms, THEN conjunct1])

text \<open>Which branch of \<^verbatim>\<open>page_pin\<close> creates a page on disk: the slot is new and the
  budget is empty or the anonymous \<^verbatim>\<open>mmap\<close> has no memory.\<close>

lemma page_pin_Inr:
  "page_pin e i s = Inr s' \<Longrightarrow>
     i < TABLESZ \<and>
     s' = (if mapped s i then s
           else if ondisk s i
           then s\<lparr>pages := (pages s)(i := Some (File_map (spool i))),
                  states := (states s)(i := states s i OR PAGE_MAPPED),
                  nmapped := nmapped s + 1\<rparr>
           else if nfree s \<noteq> 0 \<and> mmap_anon e = Mmap_ok
           then s\<lparr>pages := (pages s)(i := Some (Anon zero_page)),
                  states := (states s)(i := states s i OR PAGE_MAPPED),
                  nmapped := nmapped s + 1,
                  nfree := nfree s - 1\<rparr>
           else s\<lparr>nfree := 0, headroom := (if nfree s \<noteq> 0 then False else headroom s),
                  files := (files s)(spool i := Some zero_page),
                  pages := (pages s)(i := Some (File_map (spool i))),
                  states := (states s)(i := states s i OR (PAGE_MAPPED OR PAGE_ONDISK)),
                  nmapped := nmapped s + 1,
                  nondisk := nondisk s + 1\<rparr>)"
  using page_filepath_cases [of i]
  by (auto simp: page_pin_def pin_existing_def pin_ondisk_def mapped_def ondisk_def
      split: if_splits mmap_result.splits)

lemma page_pin_E:
  assumes "page_pin e i s = Inr s'"
  obtains "i < TABLESZ" "rpos s' = rpos s" "wpos s' = wpos s" "ntoread s' = ntoread s"
    "ntowrite s' = ntowrite s" "eof_seen s' = eof_seen s" "stdin_read s' = stdin_read s"
    "stdout_written s' = stdout_written s"
    "mapped s' = (\<lambda>j. mapped s j \<or> j = i)"
    "ondisk s' = (\<lambda>j. if j = i \<and> \<not> mapped s i \<and> \<not> ondisk s i
                        then \<not> (nfree s \<noteq> 0 \<and> mmap_anon e = Mmap_ok) else ondisk s j)"
proof
  note eq = page_pin_Inr [OF assms, THEN conjunct2]
  show "i < TABLESZ" using page_pin_Inr [OF assms] by simp
  show "mapped s' = (\<lambda>j. mapped s j \<or> j = i)"
    by (intro ext) (auto simp: eq mapped_def ondisk_def)
  show "ondisk s' = (\<lambda>j. if j = i \<and> \<not> mapped s i \<and> \<not> ondisk s i
                        then \<not> (nfree s \<noteq> 0 \<and> mmap_anon e = Mmap_ok) else ondisk s j)"
    by (intro ext) (auto simp: eq mapped_def ondisk_def)
qed (simp_all add: page_pin_Inr [OF assms, THEN conjunct2])

section \<open>What the two cursor advances do\<close>

lemma advance_rpos_stay:
  assumes "advance_rpos e n s = Inr s'" "off (rpos s) + of_nat n \<noteq> PAGESZ"
  shows "s' = s\<lparr>rpos := (rpos s)\<lparr>off := off (rpos s) + of_nat n\<rparr>,
              ntoread := ucast (PAGESZ - (off (rpos s) + of_nat n))\<rparr>"
  using assms by (simp add: advance_rpos_def Let_def)

lemma advance_rpos_cross:
  assumes "advance_rpos e n s = Inr s'" "off (rpos s) + of_nat n = PAGESZ"
  shows "idx (rpos s) + 1 < TABLESZ \<and>
    rpos s' = \<lparr>idx = idx (rpos s) + 1, off = 0\<rparr> \<and> ntoread s' = ucast PAGESZ \<and>
    wpos s' = wpos s \<and> eof_seen s' = eof_seen s \<and> ntowrite s' = ntowrite s \<and>
    stdin_read s' = stdin_read s \<and> stdout_written s' = stdout_written s \<and>
    mapped s' = (\<lambda>j. j = idx (rpos s) + 1 \<or>
        mapped s j \<and> \<not> (j = idx (rpos s) \<and> idx (rpos s) \<noteq> idx (wpos s) \<and> ondisk s j)) \<and>
    (\<forall>j. j \<noteq> idx (rpos s) + 1 \<longrightarrow> ondisk s' j = ondisk s j)"
  using assms
  apply (clarsimp simp: advance_rpos_def Let_def bind_ok_eq_Inr not_le split: if_splits)
   apply (elim page_unpin_E page_pin_E; simp; blast)
  apply (elim page_unpin_E page_pin_E; simp; blast)
  done

lemma advance_wpos_stay:
  assumes "advance_wpos e n s = Inr s'" "off (wpos s) + of_nat n \<noteq> PAGESZ"
  shows "s' = s\<lparr>wpos := (wpos s)\<lparr>off := off (wpos s) + of_nat n\<rparr>\<rparr>"
  using assms by (simp add: advance_wpos_def Let_def)

lemma advance_wpos_cross:
  assumes "advance_wpos e n s = Inr s'" "off (wpos s) + of_nat n = PAGESZ"
  shows "idx (wpos s) + 1 < TABLESZ \<and>
    wpos s' = \<lparr>idx = idx (wpos s) + 1, off = 0\<rparr> \<and> ntoread s' = ntoread s \<and>
    rpos s' = rpos s \<and> eof_seen s' = eof_seen s \<and> ntowrite s' = ntowrite s \<and>
    stdin_read s' = stdin_read s \<and> stdout_written s' = stdout_written s \<and>
    mapped s' = (\<lambda>j. j = idx (wpos s) + 1 \<or> mapped s j \<and> j \<noteq> idx (wpos s)) \<and>
    (\<forall>j. j \<noteq> idx (wpos s) + 1 \<longrightarrow> ondisk s' j = (ondisk s j \<and> j \<noteq> idx (wpos s))) \<and>
    (idx (wpos s) + 1 \<noteq> idx (wpos s) \<and> (mapped s (idx (wpos s) + 1) \<or> ondisk s (idx (wpos s) + 1))
       \<longrightarrow> ondisk s' (idx (wpos s) + 1) = ondisk s (idx (wpos s) + 1))"
  using assms
  apply (clarsimp simp: advance_wpos_def Let_def bind_ok_eq_Inr not_le split: if_splits)
  apply (elim page_unpin_E page_free_E page_pin_E; simp; blast)
  done

lemma store_bytes_E:
  assumes "store_bytes p bs s = Inr s'"
  obtains "rpos s' = rpos s" "wpos s' = wpos s" "ntoread s' = ntoread s"
    "ntowrite s' = ntowrite s" "eof_seen s' = eof_seen s" "stdin_read s' = stdin_read s"
    "stdout_written s' = stdout_written s" "nfree s' = nfree s" "states s' = states s"
    "nmapped s' = nmapped s" "nondisk s' = nondisk s"
    "mapped s' = mapped s" "ondisk s' = ondisk s"
  using assms
  by (auto simp: store_bytes_def split: option.splits mapping.splits)

lemma off_add:
  assumes "k < PAGESZ" "n \<le> unat (ucast (PAGESZ - k) :: 64 word)"
  shows "unat (k + of_nat n) = unat k + n" "unat k + n \<le> 16777216"
proof -
  have k: "unat k < 16777216" using assms(1) by (simp add: word_less_nat_alt)
  have "unat (PAGESZ - k) = 16777216 - unat k"
    using k by (simp add: unat_sub word_le_nat_alt)
  with assms(2) have n: "n \<le> 16777216 - unat k" by simp
  show "unat k + n \<le> 16777216" using n k by simp
  show "unat (k + of_nat n) = unat k + n"
    using n k by (simp add: unat_word_ariths unat_of_nat)
qed

lemma off_add':
  assumes "unat k + n \<le> 16777216"
  shows "unat ((k::32 word) + of_nat n) = unat k + n"
  using assms by (simp add: unat_word_ariths unat_of_nat)

lemma idx_suc: "(i::32 word) < TABLESZ \<Longrightarrow> unat (i + 1) = unat i + 1"
  by (simp add: unat_word_ariths word_less_nat_alt)

lemma on_readable_cursors:
  assumes "on_readable e s = Inr s'" "cursors_ok s" "ntoread s \<noteq> 0" "posix e s"
  shows "cursors_ok s' \<and> wpos s' = wpos s \<and> lex_le (rpos s) (rpos s')
         \<and> ntowrite s' = ntowrite s \<and> stdout_written s' = stdout_written s"
proof -
  from assms(2,3) have ne: "\<not> eof_seen s" and nr: "ntoread s = ucast (PAGESZ - off (rpos s))"
    by (auto simp: cursors_ok_def split: if_splits)
  from assms(1) obtain bs where rd: "ev_read e = Read_bytes bs"
    by (cases "ev_read e") (auto simp: on_readable_def bind_ok_eq_Inr)
  show ?thesis
  proof (cases "bs = []")
    case True
    with assms(1) rd have "s' = s\<lparr>ntoread := 0, eof_seen := True\<rparr>"
      by (auto simp: on_readable_def bind_ok_eq_Inr)
    with assms(2) show ?thesis by (simp add: cursors_ok_def lex_le_def)
  next
    case False
    with assms(1) rd obtain p s1 where s1: "store_bytes p bs s = Inr s1"
      and adv: "advance_rpos e (length bs) (s1\<lparr>stdin_read := stdin_read s1 @ bs\<rparr>) = Inr s'"
      by (auto simp: on_readable_def bind_ok_eq_Inr)
    let ?s = "s1\<lparr>stdin_read := stdin_read s1 @ bs\<rparr>"
    from s1 have fr: "rpos s1 = rpos s" "wpos s1 = wpos s" "eof_seen s1 = eof_seen s"
      "ntowrite s1 = ntowrite s" "stdout_written s1 = stdout_written s"
      by (auto elim!: store_bytes_E)
    from assms(4) rd nr have len: "length bs \<le> unat (ucast (PAGESZ - off (rpos s)) :: 64 word)"
      by (simp add: posix_def)
    from assms(2) have k: "off (rpos s) < PAGESZ" by (simp add: cursors_ok_def)
    note oa = off_add [OF k len]
    show ?thesis
    proof (cases "off (rpos s) + of_nat (length bs) = PAGESZ")
      case True
      from True have "off (rpos ?s) + of_nat (length bs) = PAGESZ" by (simp add: fr)
      note c = advance_rpos_cross [OF adv this]
      from assms(2) have "idx (rpos s) < TABLESZ" by (simp add: cursors_ok_def)
      note su = idx_suc [OF this]
      from c assms(2) ne su show ?thesis
        by (auto simp: cursors_ok_def lex_le_def fr word_less_nat_alt word_le_nat_alt)
    next
      case False
      from False have "off (rpos ?s) + of_nat (length bs) \<noteq> PAGESZ" by (simp add: fr)
      note st = advance_rpos_stay [OF adv this]
      from False oa have "unat (off (rpos s) + of_nat (length bs)) < 16777216"
        by (auto simp: word_unat_eq_iff)
      with st assms(2) ne oa show ?thesis
        by (auto simp: cursors_ok_def lex_le_def fr word_less_nat_alt word_le_nat_alt)
    qed
  qed
qed

section \<open>The cursors over one iteration\<close>

lemma lex_le_refl [simp]: "lex_le a a"
  by (simp add: lex_le_def)

lemma lex_le_trans: "lex_le a b \<Longrightarrow> lex_le b c \<Longrightarrow> lex_le a c"
  by (auto simp: lex_le_def)

lemma ntowrite_avail:
  assumes "cursors_ok s" "ntowrite_ok s"
  shows "unat (ntowrite s) = avail s"
  using assms
  by (auto simp: cursors_ok_def ntowrite_ok_def avail_def lex_le_def unat_sub
      word_le_nat_alt word_less_nat_alt)

lemma avail_mono:
  assumes "cursors_ok s" "cursors_ok s'" "wpos s' = wpos s" "lex_le (rpos s) (rpos s')"
  shows "avail s \<le> avail s'"
proof -
  from assms(1,2) have b: "unat (off (rpos s)) < 16777216" "unat (off (rpos s')) < 16777216"
    "lex_le (wpos s) (rpos s)"
    by (simp_all add: cursors_ok_def word_less_nat_alt)
  from assms(4) b(3) consider
    (same) "idx (rpos s') = idx (rpos s)" "unat (off (rpos s)) \<le> unat (off (rpos s'))"
    | (later) "idx (wpos s) \<noteq> idx (rpos s')"
    by (auto simp: lex_le_def word_le_nat_alt)
  then show ?thesis
  proof cases
    case same
    then show ?thesis by (auto simp: avail_def assms(3) intro: diff_le_mono)
  next
    case later
    with b(1) show ?thesis by (auto simp: avail_def assms(3) intro!: diff_le_mono)
  qed
qed

lemma on_writable_cursors:
  assumes "on_writable e s = Inr s'" "cursors_ok s"
    "\<forall>n. ev_write e = Write_count n \<longrightarrow> n \<le> avail s"
  shows "cursors_ok s' \<and> rpos s' = rpos s \<and> lex_le (wpos s) (wpos s')
         \<and> ntoread s' = ntoread s \<and> eof_seen s' = eof_seen s \<and> stdin_read s' = stdin_read s"
proof -
  from assms(1) obtain n where wr: "ev_write e = Write_count n"
    by (cases "ev_write e") (auto simp: on_writable_def bind_ok_eq_Inr)
  with assms(1) obtain bs where
    adv: "advance_wpos e n (s\<lparr>stdout_written := stdout_written s @ bs\<rparr>) = Inr s'"
    by (auto simp: on_writable_def bind_ok_eq_Inr)
  let ?s = "s\<lparr>stdout_written := stdout_written s @ bs\<rparr>"
  from assms(3) wr have n: "n \<le> avail s" by simp
  from assms(2) have k: "unat (off (wpos s)) < 16777216" "unat (off (rpos s)) < 16777216"
    by (simp_all add: cursors_ok_def word_less_nat_alt)
  from n k have sum: "unat (off (wpos s)) + n \<le> 16777216"
    by (auto simp: avail_def split: if_splits)
  note oa = off_add' [OF sum]
  show ?thesis
  proof (cases "off (wpos s) + of_nat n = PAGESZ")
    case True
    then have "off (wpos ?s) + of_nat n = PAGESZ" by simp
    note c = advance_wpos_cross [OF adv this]
    from True oa have "unat (off (wpos s)) + n = 16777216" by (simp add: word_unat_eq_iff)
    with n k have ne: "idx (wpos s) \<noteq> idx (rpos s)"
      by (auto simp: avail_def split: if_splits)
    with assms(2) have lt: "unat (idx (wpos s)) < unat (idx (rpos s))" "idx (wpos s) < TABLESZ"
      by (auto simp: cursors_ok_def lex_le_def word_less_nat_alt)
    note su = idx_suc [OF lt(2)]
    from c assms(2) su lt show ?thesis
      by (auto simp: cursors_ok_def lex_le_def word_less_nat_alt word_le_nat_alt word_unat_eq_iff)
  next
    case False
    then have "off (wpos ?s) + of_nat n \<noteq> PAGESZ" by simp
    note st = advance_wpos_stay [OF adv this]
    from False oa sum have lt: "unat (off (wpos s) + of_nat n) < 16777216"
      by (auto simp: word_unat_eq_iff)
    from st assms(2) oa lt n show ?thesis
      by (auto simp: cursors_ok_def lex_le_def avail_def word_less_nat_alt word_le_nat_alt
          split: if_splits)
  qed
qed

lemma iter_cursors:
  assumes "iter e s = Inr s'" "cursors_ok s" "ntowrite_ok s" "posix e s"
  shows "cursors_ok s' \<and> ntowrite_ok s' \<and> lex_le (rpos s) (rpos s') \<and> lex_le (wpos s) (wpos s')"
proof -
  from assms(1) obtain r w s1 s2 where
    s1: "(if ntoread s \<noteq> 0 \<and> r then on_readable e s else Inr s) = Inr s1"
    and s2: "(if ntowrite s \<noteq> 0 \<and> w then on_writable e s1 else Inr s1) = Inr s2"
    and s': "s' = s2\<lparr>ntowrite :=
                      ucast ((if idx (wpos s2) = idx (rpos s2) then off (rpos s2) else PAGESZ)
                             - off (wpos s2))\<rparr>"
    by (cases "ev_select e") (auto simp: iter_def bind_ok_eq_Inr)
  have a1: "cursors_ok s1 \<and> wpos s1 = wpos s \<and> lex_le (rpos s) (rpos s1)
         \<and> ntowrite s1 = ntowrite s"
    using s1 on_readable_cursors [OF _ assms(2) _ assms(4), of s1] assms(2)
    by (auto split: if_splits)
  then have "avail s \<le> avail s1" using avail_mono [OF assms(2), of s1] by simp
  with assms(4) ntowrite_avail [OF assms(2,3)]
  have "\<forall>n. ev_write e = Write_count n \<longrightarrow> n \<le> avail s1"
    by (auto simp: posix_def)
  with s2 a1 on_writable_cursors [of e s1 s2]
  have a2: "cursors_ok s2 \<and> rpos s2 = rpos s1 \<and> lex_le (wpos s1) (wpos s2)"
    by (auto split: if_splits)
  from a1 a2 s' show ?thesis
    by (auto simp: cursors_ok_def ntowrite_ok_def)
qed

section \<open>The argument check\<close>

lemma positional_usage:
  "getopt_ret a = - 1 \<Longrightarrow> argc a \<noteq> optind a \<Longrightarrow>
     main a b es = Usage_exit 1 (getopt_diag a @ [usage_line])"
  by (simp add: main_def)

text \<open>
  C5, as stated, fails: with an unknown flag \<^verbatim>\<open>getopt\<close> returns \<open>'?'\<close> (63), and
  \<^verbatim>\<open>main\<close> returns 1 at line 93 before the \<^verbatim>\<open>fputs\<close> of the usage line at line 95.
  Stderr then holds only what \<^verbatim>\<open>getopt\<close> printed itself, and the usage line is not
  among it.
\<close>

theorem unknown_flag_no_usage_line:
  "main flag_args (boot_with 0) [] = Usage_exit 1 [''petabuf: unknown option -- x'']
   \<and> usage_line \<notin> set [''petabuf: unknown option -- x'']"
  by (simp add: main_def flag_args_def usage_line_def)

text \<open>
  C5, amended: when \<^verbatim>\<open>getopt\<close> reports an unknown flag, the program exits with
  status 1, writes nothing to stdout, and adds nothing to stderr: the diagnostic stream
  holds the lines of \<^verbatim>\<open>getopt\<close> alone. (The usage line is printed when \<^verbatim>\<open>getopt\<close>
  accepts the options and a positional argument remains: \<open>positional_usage\<close>.)
\<close>

theorem unknown_flag_exit:
  "getopt_ret a \<noteq> - 1 \<Longrightarrow>
     main a b es = Usage_exit 1 (getopt_diag a) \<and> stdout_of (main a b es) = []"
  by (simp add: main_def)

theorem unknown_flag_exit_witness:
  "getopt_ret flag_args \<noteq> - 1 \<and>
   main flag_args (boot_with 0) [] = Usage_exit 1 (getopt_diag flag_args) \<and>
   stdout_of (main flag_args (boot_with 0) []) = []"
  using unknown_flag_exit [of flag_args "boot_with 0" "[]"] by (simp add: flag_args_def)

section \<open>The assertion of \<^verbatim>\<open>page_free\<close>\<close>

lemma page_unpin_not_both:
  "page_unpin m i s = Inr s' \<Longrightarrow>
     \<not> (states s' i AND PAGE_ONDISK \<noteq> 0 \<and> states s' i AND PAGE_MAPPED \<noteq> 0)"
  by (auto simp: page_unpin_def split: if_splits)

lemma page_unpin_wpos: "page_unpin m i s = Inr s' \<Longrightarrow> wpos s' = wpos s"
  by (auto simp: page_unpin_def split: if_splits)

lemma page_free_assert:
  "page_free u m i s = Inl (Assertion Free_not_pinned) \<longleftrightarrow>
     i < TABLESZ \<and> states s i AND PAGE_ONDISK \<noteq> 0 \<and> states s i AND PAGE_MAPPED \<noteq> 0"
  using page_filepath_cases [of i]
  by (auto simp: page_free_def split: if_splits)

lemma page_unpin_no_free_assert: "page_unpin m i s \<noteq> Inl (Assertion Free_not_pinned)"
  by (simp add: page_unpin_def)

lemma page_pin_no_free_assert: "page_pin e i s \<noteq> Inl (Assertion Free_not_pinned)"
  using page_filepath_cases [of i]
  by (auto simp: page_pin_def pin_existing_def pin_ondisk_def
      split: mmap_result.splits if_splits)

lemma advance_wpos_no_free_assert:
  "advance_wpos e n s \<noteq> Inl (Assertion Free_not_pinned)"
proof -
  define s1 where "s1 = s\<lparr>wpos := (wpos s)\<lparr>off := off (wpos s) + of_nat n\<rparr>\<rparr>"
  have free_ok: "page_free u m' (idx (wpos s2)) s2 \<noteq> Inl (Assertion Free_not_pinned)"
    if "page_unpin m (idx (wpos s1)) s1 = Inr s2" for m u m' s2
    using page_unpin_not_both [OF that] page_unpin_wpos [OF that]
    by (simp add: page_free_assert)
  show ?thesis
    unfolding advance_wpos_def Let_def s1_def [symmetric]
    by (auto simp: bind_ok_eq_Inl page_unpin_no_free_assert page_pin_no_free_assert free_ok)
qed

lemma advance_rpos_no_free_assert:
  "advance_rpos e n s \<noteq> Inl (Assertion Free_not_pinned)"
  unfolding advance_rpos_def Let_def
  by (auto simp: bind_ok_eq_Inl page_unpin_no_free_assert page_pin_no_free_assert
           split: if_splits)

lemma on_readable_no_free_assert: "on_readable e s \<noteq> Inl (Assertion Free_not_pinned)"
  by (auto simp: on_readable_def page_ptr_def bind_ok_eq_Inl store_bytes_def
        advance_rpos_no_free_assert
      split: read_result.splits if_splits option.splits mapping.splits)

lemma on_writable_no_free_assert: "on_writable e s \<noteq> Inl (Assertion Free_not_pinned)"
  by (auto simp: on_writable_def page_ptr_def bind_ok_eq_Inl load_bytes_def
        advance_wpos_no_free_assert
      split: write_result.splits if_splits option.splits mapping.splits)

lemma iter_no_free_assert: "iter e s \<noteq> Inl (Assertion Free_not_pinned)"
  by (auto simp: iter_def bind_ok_eq_Inl on_readable_no_free_assert
        on_writable_no_free_assert
      split: select_result.splits if_splits)

lemma main_loop_no_free_assert: "main_loop es s \<noteq> Inl (Assertion Free_not_pinned)"
  by (induction es arbitrary: s) (auto simp: bind_ok_eq_Inl iter_no_free_assert)

lemma startup_no_free_assert: "startup b \<noteq> Inl (Assertion Free_not_pinned)"
  by (auto simp: startup_def bind_ok_eq_Inl page_pin_no_free_assert split: option.splits)

text \<open>
  C9: \<^verbatim>\<open>page_free\<close> fails its assertion exactly when it is called on a slot that is
  both \<^verbatim>\<open>PAGE_ONDISK\<close> and \<^verbatim>\<open>PAGE_MAPPED\<close> (\<open>page_free_assert\<close>). The loop calls it only
  at line 176, right after \<^verbatim>\<open>page_unpin\<close> of the same index, which leaves no slot with
  both bits (\<open>page_unpin_not_both\<close>). So on every call a slot that is on disk is not
  mapped, and no run of the program, whatever the operating system answers, dies of that
  assertion.
\<close>

theorem free_assertion_never_fires:
  "main a b es \<noteq> Died (Assertion Free_not_pinned)"
  by (auto simp: main_def bind_ok_eq_Inl startup_no_free_assert main_loop_no_free_assert
      split: sum.splits)

theorem free_assertion_never_fires_witness:
  "main no_args (boot_with 0)
     [io True (replicate 16777216 0) False 0, io False [] True 16777216]
   \<noteq> Died (Assertion Free_not_pinned)"
  by (rule free_assertion_never_fires)

section \<open>The cursors over a run\<close>


lemma main_loop_append:
  "main_loop (es1 @ es2) s = bind_ok (main_loop es1 s) (main_loop es2)"
proof (induction es1 arbitrary: s)
  case Nil
  show ?case by simp
next
  case (Cons e es1)
  show ?case
  proof (cases "ntoread s \<noteq> 0 \<or> ntowrite s \<noteq> 0")
    case True
    then show ?thesis by (cases "iter e s") (simp_all add: Cons.IH)
  next
    case False
    then show ?thesis by (cases es2) simp_all
  qed
qed

lemma posix_run_append:
  "posix_run (es1 @ es2) s \<Longrightarrow>
     posix_run es1 s \<and> (\<forall>s1. main_loop es1 s = Inr s1 \<longrightarrow> posix_run es2 s1)"
proof (induction es1 arbitrary: s)
  case Nil
  then show ?case by simp
next
  case (Cons e es1)
  show ?case
  proof (cases "ntoread s \<noteq> 0 \<or> ntowrite s \<noteq> 0")
    case True
    with Cons.prems show ?thesis
      by (cases "iter e s") (auto dest: Cons.IH)
  next
    case False
    then show ?thesis by (cases es2) simp_all
  qed
qed

lemma run_append: "run b (es1 @ es2) = bind_ok (run b es1) (main_loop es2)"
  by (cases "startup b") (simp_all add: run_def main_loop_append)

lemma posix_main_append:
  "posix_main b (es1 @ es2) \<Longrightarrow>
     posix_main b es1 \<and> (\<forall>s1. run b es1 = Inr s1 \<longrightarrow> posix_run es2 s1)"
  by (cases "startup b") (auto simp: posix_main_def run_def dest: posix_run_append)

lemma startup_cursors:
  assumes "startup b = Inr s0"
  shows "cursors_ok s0 \<and> ntowrite_ok s0 \<and> rpos s0 = \<lparr>idx = 0, off = 0\<rparr>
         \<and> wpos s0 = \<lparr>idx = 0, off = 0\<rparr> \<and> \<not> eof_seen s0
         \<and> stdin_read s0 = [] \<and> stdout_written s0 = []"
  using assms
  apply (clarsimp simp: startup_def bind_ok_eq_Inr split: if_splits option.splits)
  apply (erule page_pin_E)
  apply (simp add: cursors_ok_def ntowrite_ok_def lex_le_def)
  done

lemma main_loop_cursors:
  assumes "main_loop es s = Inr s'" "cursors_ok s" "ntowrite_ok s" "posix_run es s"
  shows "cursors_ok s' \<and> ntowrite_ok s' \<and> lex_le (rpos s) (rpos s') \<and> lex_le (wpos s) (wpos s')"
  using assms
proof (induction es arbitrary: s)
  case Nil
  then show ?case by simp
next
  case (Cons e es)
  show ?case
  proof (cases "ntoread s \<noteq> 0 \<or> ntowrite s \<noteq> 0")
    case False
    with Cons.prems show ?thesis by simp
  next
    case True
    with Cons.prems obtain s1 where s1: "iter e s = Inr s1" and rest: "main_loop es s1 = Inr s'"
      by (auto simp: bind_ok_eq_Inr)
    from True Cons.prems s1 have px: "posix e s" "posix_run es s1" by auto
    note i = iter_cursors [OF s1 Cons.prems(2,3) px(1)]
    from Cons.IH [OF rest _ _ px(2)] i
    show ?thesis by (blast intro: lex_le_trans)
  qed
qed

lemma run_cursors:
  assumes "posix_main b es" "run b es = Inr s"
  shows "cursors_ok s" "ntowrite_ok s"
proof -
  from assms(2) obtain s0 where s0: "startup b = Inr s0" and l: "main_loop es s0 = Inr s"
    by (auto simp: run_def bind_ok_eq_Inr)
  from assms(1) s0 have p: "posix_run es s0" by (simp add: posix_main_def)
  from main_loop_cursors [OF l _ _ p] startup_cursors [OF s0]
  show "cursors_ok s" "ntowrite_ok s" by simp_all
qed

text \<open>
  C7: take any run whose \<^verbatim>\<open>read\<close> and \<^verbatim>\<open>write\<close> calls return at most the count they
  were given, and any two iteration boundaries of it, \<open>s1\<close> reached after the
  iterations \<open>es1\<close> and \<open>s2\<close> after \<open>es2\<close> more. Between them neither cursor has
  decreased in the lexicographic order on \<open>(idx, off)\<close>, and at the boundary the
  intake cursor (\<^verbatim>\<open>rpos\<close> in the code) is not below the drain cursor (\<^verbatim>\<open>wpos\<close>).
\<close>

theorem cursors_monotone:
  assumes "posix_main b (es1 @ es2)" and "run b es1 = Inr s1" and "run b (es1 @ es2) = Inr s2"
  shows "lex_le (rpos s1) (rpos s2) \<and> lex_le (wpos s1) (wpos s2) \<and> lex_le (wpos s1) (rpos s1)"
proof -
  from posix_main_append [OF assms(1)] assms(2)
  have p: "posix_main b es1" "posix_run es2 s1" by simp_all
  note c = run_cursors [OF p(1) assms(2)]
  from assms(2,3) have "main_loop es2 s1 = Inr s2" by (simp add: run_append)
  from main_loop_cursors [OF this c p(2)] c(1)
  show ?thesis by (simp add: cursors_ok_def)
qed



text \<open>The definitions that evaluate a run on concrete answers.\<close>

lemmas run_eval =
  run_def posix_main_def
  startup_def boot_with_def all_ok_def io_def page_pin_def pin_ondisk_def pin_existing_def
  page_unpin_def page_free_def page_filepath_def spool_def decimal.simps digit_def iter_def
  on_readable_def on_writable_def page_ptr_def store_bytes_def load_bytes_def
  advance_rpos_def advance_wpos_def Let_def posix_def word_le_nat_alt word_less_nat_alt

theorem cursors_monotone_witness:
  "\<exists>s1 s2. posix_main (boot_with 0) ([io True [1, 2, 3] False 0] @ [io False [] True 2])
     \<and> run (boot_with 0) [io True [1, 2, 3] False 0] = Inr s1
     \<and> run (boot_with 0) ([io True [1, 2, 3] False 0] @ [io False [] True 2]) = Inr s2
     \<and> lex_le (rpos s1) (rpos s2) \<and> lex_le (wpos s1) (wpos s2) \<and> lex_le (wpos s1) (rpos s1)"
proof -
  have "\<exists>s1 s2. posix_main (boot_with 0) ([io True [1, 2, 3] False 0] @ [io False [] True 2])
     \<and> run (boot_with 0) [io True [1, 2, 3] False 0] = Inr s1
     \<and> run (boot_with 0) ([io True [1, 2, 3] False 0] @ [io False [] True 2]) = Inr s2"
    by (simp add: run_eval)
  then obtain s1 s2 where
    h: "posix_main (boot_with 0) ([io True [1, 2, 3] False 0] @ [io False [] True 2])"
    "run (boot_with 0) [io True [1, 2, 3] False 0] = Inr s1"
    "run (boot_with 0) ([io True [1, 2, 3] False 0] @ [io False [] True 2]) = Inr s2"
    by blast
  from cursors_monotone [OF h] h show ?thesis by blast
qed


section \<open>The assertion of \<^verbatim>\<open>page_pin\<close>\<close>

lemma page_pin_assert:
  "page_pin e i s = Inl (Assertion Pin_idx) \<longleftrightarrow> \<not> i < TABLESZ"
  using page_filepath_cases [of i]
  by (auto simp: page_pin_def pin_existing_def pin_ondisk_def
      split: mmap_result.splits if_splits)

lemma page_unpin_no_pin_assert: "page_unpin m i s \<noteq> Inl (Assertion Pin_idx)"
  by (simp add: page_unpin_def)

lemma page_free_no_pin_assert: "page_free u m i s \<noteq> Inl (Assertion Pin_idx)"
  using page_filepath_cases [of i]
  by (auto simp: page_free_def split: if_splits)

text \<open>The intake cursor's crossing checks the index at line 156 before it pins.\<close>

lemma advance_rpos_no_pin_assert: "advance_rpos e n s \<noteq> Inl (Assertion Pin_idx)"
  unfolding advance_rpos_def Let_def
  by (auto simp: bind_ok_eq_Inl page_unpin_no_pin_assert page_pin_assert not_le
      split: if_splits)

lemma on_readable_no_pin_assert: "on_readable e s \<noteq> Inl (Assertion Pin_idx)"
  by (auto simp: on_readable_def page_ptr_def bind_ok_eq_Inl store_bytes_def
        advance_rpos_no_pin_assert
      split: read_result.splits if_splits option.splits mapping.splits)

text \<open>The drain cursor's crossing does not: it pins \<open>idx + 1\<close> as it is.\<close>

lemma advance_wpos_pin_assert:
  assumes "advance_wpos e n s = Inl (Assertion Pin_idx)"
  shows "off (wpos s) + of_nat n = PAGESZ \<and> \<not> idx (wpos s) + 1 < TABLESZ"
  using assms
  apply (clarsimp simp: advance_wpos_def Let_def bind_ok_eq_Inl page_unpin_no_pin_assert
      page_free_no_pin_assert page_pin_assert split: if_splits)
  apply (elim page_unpin_E page_free_E; simp)
  done

lemma on_writable_pin_assert:
  assumes "on_writable e s = Inl (Assertion Pin_idx)"
  shows "\<exists>n. ev_write e = Write_count n \<and> off (wpos s) + of_nat n = PAGESZ
           \<and> \<not> idx (wpos s) + 1 < TABLESZ"
  using assms
  by (cases "ev_write e")
     (auto simp: on_writable_def page_ptr_def bind_ok_eq_Inl load_bytes_def
      split: if_splits option.splits mapping.splits dest!: advance_wpos_pin_assert)

lemma on_writable_no_pin_assert:
  assumes "cursors_ok s" "\<forall>n. ev_write e = Write_count n \<longrightarrow> n \<le> avail s"
  shows "on_writable e s \<noteq> Inl (Assertion Pin_idx)"
proof
  assume "on_writable e s = Inl (Assertion Pin_idx)"
  from on_writable_pin_assert [OF this] obtain n where
    wr: "ev_write e = Write_count n" and c: "off (wpos s) + of_nat n = PAGESZ"
    and big: "\<not> idx (wpos s) + 1 < TABLESZ" by blast
  from assms(2) wr have n: "n \<le> avail s" by simp
  from assms(1) have k: "unat (off (wpos s)) < 16777216" "unat (off (rpos s)) < 16777216"
    by (simp_all add: cursors_ok_def word_less_nat_alt)
  from n k have sum: "unat (off (wpos s)) + n \<le> 16777216"
    by (auto simp: avail_def split: if_splits)
  from c off_add' [OF sum] have "unat (off (wpos s)) + n = 16777216"
    by (simp add: word_unat_eq_iff)
  with n k have "idx (wpos s) \<noteq> idx (rpos s)"
    by (auto simp: avail_def split: if_splits)
  with assms(1) have lt: "unat (idx (wpos s)) < unat (idx (rpos s))"
    "unat (idx (rpos s)) < 67108864"
    by (auto simp: cursors_ok_def lex_le_def word_less_nat_alt)
  then have "idx (wpos s) < TABLESZ" by (simp add: word_less_nat_alt)
  from idx_suc [OF this] lt have "idx (wpos s) + 1 < TABLESZ"
    by (simp add: word_less_nat_alt)
  with big show False by simp
qed

lemma iter_no_pin_assert:
  assumes "cursors_ok s" "ntowrite_ok s" "posix e s"
  shows "iter e s \<noteq> Inl (Assertion Pin_idx)"
proof
  assume f: "iter e s = Inl (Assertion Pin_idx)"
  then obtain r w where sel: "ev_select e = Select_ready r w"
    by (cases "ev_select e") (auto simp: iter_def)
  define m1 where "m1 = (if ntoread s \<noteq> 0 \<and> r then on_readable e s else Inr s)"
  from f sel have "m1 \<noteq> Inl (Assertion Pin_idx)"
    by (auto simp: m1_def on_readable_no_pin_assert)
  with f sel obtain s1 where s1: "m1 = Inr s1"
    and w: "ntowrite s \<noteq> 0 \<and> w" "on_writable e s1 = Inl (Assertion Pin_idx)"
    by (auto simp: iter_def m1_def [symmetric] bind_ok_eq_Inl split: if_splits)
  have a1: "cursors_ok s1 \<and> wpos s1 = wpos s \<and> lex_le (rpos s) (rpos s1)"
    using s1 on_readable_cursors [OF _ assms(1) _ assms(3), of s1] assms(1)
    by (auto simp: m1_def split: if_splits)
  then have "avail s \<le> avail s1" using avail_mono [OF assms(1), of s1] by simp
  with assms(3) ntowrite_avail [OF assms(1,2)]
  have "\<forall>n. ev_write e = Write_count n \<longrightarrow> n \<le> avail s1"
    by (auto simp: posix_def)
  with a1 on_writable_no_pin_assert [of s1 e] w(2) show False by simp
qed

lemma main_loop_no_pin_assert:
  assumes "cursors_ok s" "ntowrite_ok s" "posix_run es s"
  shows "main_loop es s \<noteq> Inl (Assertion Pin_idx)"
  using assms
proof (induction es arbitrary: s)
  case Nil
  show ?case by simp
next
  case (Cons e es)
  show ?case
  proof (cases "ntoread s \<noteq> 0 \<or> ntowrite s \<noteq> 0")
    case False
    then show ?thesis by simp
  next
    case True
    with Cons.prems have px: "posix e s" by simp
    note ni = iter_no_pin_assert [OF Cons.prems(1,2) px]
    show ?thesis
    proof (cases "iter e s")
      case (Inl x)
      with ni True show ?thesis by simp
    next
      case (Inr s1)
      with True Cons.prems have p1: "posix_run es s1" by simp
      from iter_cursors [OF Inr Cons.prems(1,2) px]
      have "cursors_ok s1" "ntowrite_ok s1" by simp_all
      from Cons.IH [OF this p1] True Inr show ?thesis by simp
    qed
  qed
qed

lemma startup_no_pin_assert: "startup b \<noteq> Inl (Assertion Pin_idx)"
  by (auto simp: startup_def bind_ok_eq_Inl page_pin_assert split: option.splits)

text \<open>
  C10: the drain cursor's crossing at line 177 pins \<open>idx + 1\<close> without a check, and
  \<^verbatim>\<open>page_pin\<close> fails its first assertion exactly when its argument is not below
  \<^verbatim>\<open>TABLESZ\<close> (\<open>page_pin_assert\<close>). In a run whose \<^verbatim>\<open>read\<close> and \<^verbatim>\<open>write\<close> calls return
  at most the count they were given, no call of \<^verbatim>\<open>page_pin\<close> fails that assertion: the
  drain cursor crosses only when it is in an earlier page than the intake cursor, whose
  index is below \<^verbatim>\<open>TABLESZ\<close>. At every iteration boundary the drain index is at most
  the intake index, which is below \<^verbatim>\<open>TABLESZ\<close>.
\<close>

theorem pin_assertion_never_fires:
  assumes "posix_main b es"
  shows "main a b es \<noteq> Died (Assertion Pin_idx)
    \<and> (\<forall>s. run b es = Inr s \<longrightarrow> idx (wpos s) \<le> idx (rpos s) \<and> idx (rpos s) < TABLESZ)"
proof -
  have "run b es \<noteq> Inl (Assertion Pin_idx)"
  proof (cases "startup b")
    case (Inl x)
    with startup_no_pin_assert [of b] show ?thesis by (simp add: run_def)
  next
    case (Inr s0)
    with assms have "posix_run es s0" by (simp add: posix_main_def)
    from main_loop_no_pin_assert [OF _ _ this] startup_cursors [OF Inr] Inr
    show ?thesis by (simp add: run_def)
  qed
  then have 1: "main a b es \<noteq> Died (Assertion Pin_idx)"
    by (auto simp: main_def run_def split: sum.splits)
  have 2: "idx (wpos s) \<le> idx (rpos s) \<and> idx (rpos s) < TABLESZ" if "run b es = Inr s" for s
    using run_cursors(1) [OF assms that] by (auto simp: cursors_ok_def lex_le_def)
  from 1 2 show ?thesis by blast
qed

theorem pin_assertion_never_fires_witness:
  "posix_main (boot_with 0)
     [io True (replicate 16777216 0) False 0, io False [] True 16777216]
   \<and> main no_args (boot_with 0)
       [io True (replicate 16777216 0) False 0, io False [] True 16777216]
     \<noteq> Died (Assertion Pin_idx)
   \<and> (\<exists>s. run (boot_with 0)
       [io True (replicate 16777216 0) False 0, io False [] True 16777216] = Inr s
       \<and> idx (wpos s) \<le> idx (rpos s) \<and> idx (rpos s) < TABLESZ \<and> idx (wpos s) = 1)"
proof -
  let ?es = "[io True (replicate 16777216 0) False 0, io False [] True 16777216]"
  have p: "posix_main (boot_with 0) ?es"
    by (simp add: run_eval)
  have "\<exists>s. run (boot_with 0) ?es = Inr s \<and> idx (wpos s) = 1"
    by (simp add: run_eval)
  then obtain s where r: "run (boot_with 0) ?es = Inr s" and i: "idx (wpos s) = 1" by blast
  from pin_assertion_never_fires [OF p, of no_args] r i p show ?thesis by auto
qed

section \<open>The table over a run\<close>

lemma on_readable_cases:
  assumes "on_readable e s = Inr s'"
  obtains (eof) "ev_read e = Read_bytes []" "s' = s\<lparr>ntoread := 0, eof_seen := True\<rparr>"
  | (data) bs p s1 where "ev_read e = Read_bytes bs" "bs \<noteq> []"
      "page_ptr (rpos s) s = Inr p" "store_bytes p bs s = Inr s1"
      "advance_rpos e (length bs) (s1\<lparr>stdin_read := stdin_read s1 @ bs\<rparr>) = Inr s'"
proof -
  from assms obtain bs where rd: "ev_read e = Read_bytes bs"
    by (cases "ev_read e") (auto simp: on_readable_def bind_ok_eq_Inr)
  show ?thesis
  proof (cases "bs = []")
    case True
    with assms rd have "s' = s\<lparr>ntoread := 0, eof_seen := True\<rparr>"
      by (auto simp: on_readable_def bind_ok_eq_Inr)
    with rd True show ?thesis by (intro eof) simp_all
  next
    case False
    with assms rd obtain p s1 where "page_ptr (rpos s) s = Inr p" "store_bytes p bs s = Inr s1"
      "advance_rpos e (length bs) (s1\<lparr>stdin_read := stdin_read s1 @ bs\<rparr>) = Inr s'"
      by (auto simp: on_readable_def bind_ok_eq_Inr)
    with rd False show ?thesis by (intro data)
  qed
qed

lemma on_writable_cases:
  assumes "on_writable e s = Inr s'"
  obtains n p bs where "ev_write e = Write_count n" "page_ptr (wpos s) s = Inr p"
    "load_bytes p n s = Inr bs"
    "advance_wpos e n (s\<lparr>stdout_written := stdout_written s @ bs\<rparr>) = Inr s'"
proof -
  from assms obtain n where wr: "ev_write e = Write_count n"
    by (cases "ev_write e") (auto simp: on_writable_def bind_ok_eq_Inr)
  with assms obtain p bs where "page_ptr (wpos s) s = Inr p" "load_bytes p n s = Inr bs"
    "advance_wpos e n (s\<lparr>stdout_written := stdout_written s @ bs\<rparr>) = Inr s'"
    by (auto simp: on_writable_def bind_ok_eq_Inr)
  with wr show ?thesis by (intro that)
qed

lemma iter_cases:
  assumes "iter e s = Inr s'"
  obtains r w s1 s2 where "ev_select e = Select_ready r w"
    "if ntoread s \<noteq> 0 \<and> r then on_readable e s = Inr s1 else s1 = s"
    "if ntowrite s \<noteq> 0 \<and> w then on_writable e s1 = Inr s2 else s2 = s1"
    "s' = s2\<lparr>ntowrite :=
              ucast ((if idx (wpos s2) = idx (rpos s2) then off (rpos s2) else PAGESZ)
                     - off (wpos s2))\<rparr>"
proof -
  from assms obtain r w where sel: "ev_select e = Select_ready r w"
    by (cases "ev_select e") (auto simp: iter_def)
  with assms obtain s1 s2 where
    "(if ntoread s \<noteq> 0 \<and> r then on_readable e s else Inr s) = Inr s1"
    "(if ntowrite s \<noteq> 0 \<and> w then on_writable e s1 else Inr s1) = Inr s2"
    "s' = s2\<lparr>ntowrite :=
              ucast ((if idx (wpos s2) = idx (rpos s2) then off (rpos s2) else PAGESZ)
                     - off (wpos s2))\<rparr>"
    by (auto simp: iter_def bind_ok_eq_Inr)
  with sel show ?thesis by (intro that [of r w s1 s2]) (auto split: if_splits)
qed

text \<open>The state of the slot \<open>j\<close> of a table with the cursors at \<open>w\<close> and \<open>r\<close>.\<close>

lemma table_okD:
  assumes "table_ok s"
  shows "unat j < unat (idx (wpos s)) \<or> unat (idx (rpos s)) < unat j
           \<Longrightarrow> \<not> mapped s j \<and> \<not> ondisk s j"
    "mapped s (idx (wpos s))" "mapped s (idx (rpos s))"
    "unat (idx (wpos s)) < unat j \<Longrightarrow> unat j < unat (idx (rpos s))
           \<Longrightarrow> mapped s j \<noteq> ondisk s j"
  using assms by (auto simp: table_ok_def word_less_nat_alt)

lemma table_okI:
  assumes "\<And>j. unat j < unat (idx (wpos s)) \<or> unat (idx (rpos s)) < unat j
             \<Longrightarrow> \<not> mapped s j \<and> \<not> ondisk s j"
    "mapped s (idx (wpos s))" "mapped s (idx (rpos s))"
    "\<And>j. unat (idx (wpos s)) < unat j \<Longrightarrow> unat j < unat (idx (rpos s))
           \<Longrightarrow> mapped s j \<noteq> ondisk s j"
  shows "table_ok s"
  using assms by (auto simp: table_ok_def word_less_nat_alt)

lemma advance_rpos_table:
  assumes adv: "advance_rpos e n s = Inr s'" and c: "cursors_ok s" and t: "table_ok s"
  shows "table_ok s'"
proof (cases "off (rpos s) + of_nat n = PAGESZ")
  case False
  from advance_rpos_stay [OF adv False] t show ?thesis
    by (simp add: table_ok_def)
next
  case True
  note x = advance_rpos_cross [OF adv True]
  from c have lt: "idx (rpos s) < TABLESZ" and le: "unat (idx (wpos s)) \<le> unat (idx (rpos s))"
    by (auto simp: cursors_ok_def lex_le_def word_less_nat_alt)
  note su = idx_suc [OF lt]
  from x have r': "idx (rpos s') = idx (rpos s) + 1" and w': "wpos s' = wpos s"
    and m': "\<And>j. mapped s' j = (j = idx (rpos s) + 1 \<or>
        mapped s j \<and> \<not> (j = idx (rpos s) \<and> idx (rpos s) \<noteq> idx (wpos s) \<and> ondisk s j))"
    and o': "\<And>j. j \<noteq> idx (rpos s) + 1 \<Longrightarrow> ondisk s' j = ondisk s j"
    by simp_all
  show ?thesis
  proof (rule table_okI)
    fix j :: "32 word" assume "unat j < unat (idx (wpos s')) \<or> unat (idx (rpos s')) < unat j"
    then have o: "unat j < unat (idx (wpos s)) \<or> unat (idx (rpos s)) + 1 < unat j"
      by (simp add: r' w' su)
    then have ne: "j \<noteq> idx (rpos s) + 1" using su le by auto
    from o have "unat j < unat (idx (wpos s)) \<or> unat (idx (rpos s)) < unat j" by auto
    from table_okD(1) [OF t this] ne show "\<not> mapped s' j \<and> \<not> ondisk s' j"
      by (simp add: m' o')
  next
    show "mapped s' (idx (wpos s'))"
      using table_okD(2) [OF t] by (auto simp: m' w')
  next
    show "mapped s' (idx (rpos s'))" by (simp add: m' r')
  next
    fix j :: "32 word" assume "unat (idx (wpos s')) < unat j" "unat j < unat (idx (rpos s'))"
    then have b: "unat (idx (wpos s)) < unat j" "unat j \<le> unat (idx (rpos s))"
      by (simp_all add: r' w' su)
    then have ne: "j \<noteq> idx (rpos s) + 1" using su by auto
    show "mapped s' j \<noteq> ondisk s' j"
    proof (cases "j = idx (rpos s)")
      case True
      with b have "idx (rpos s) \<noteq> idx (wpos s)" by auto
      with True table_okD(3) [OF t] ne show ?thesis by (auto simp: m' o')
    next
      case False
      with b have "unat j < unat (idx (rpos s))" by (simp add: word_unat_eq_iff)
      from table_okD(4) [OF t b(1) this] False ne show ?thesis by (simp add: m' o')
    qed
  qed
qed


text \<open>The drain cursor reaches the end of its page only in a page before the intake
  cursor's.\<close>

lemma drain_cross_lt:
  assumes "cursors_ok s" "n \<le> avail s" "off (wpos s) + of_nat n = PAGESZ"
  shows "unat (idx (wpos s)) < unat (idx (rpos s))"
proof -
  from assms(1) have k: "unat (off (wpos s)) < 16777216" "unat (off (rpos s)) < 16777216"
    by (simp_all add: cursors_ok_def word_less_nat_alt)
  from assms(2) k have sum: "unat (off (wpos s)) + n \<le> 16777216"
    by (auto simp: avail_def split: if_splits)
  from assms(3) off_add' [OF sum] have "unat (off (wpos s)) + n = 16777216"
    by (simp add: word_unat_eq_iff)
  with assms(2) k have "idx (wpos s) \<noteq> idx (rpos s)"
    by (auto simp: avail_def split: if_splits)
  with assms(1) show ?thesis
    by (auto simp: cursors_ok_def lex_le_def word_less_nat_alt)
qed

lemma advance_wpos_table:
  assumes adv: "advance_wpos e n s = Inr s'" and c: "cursors_ok s" and t: "table_ok s"
    and n: "n \<le> avail s"
  shows "table_ok s'"
proof (cases "off (wpos s) + of_nat n = PAGESZ")
  case False
  from advance_wpos_stay [OF adv False] t show ?thesis
    by (simp add: table_ok_def)
next
  case True
  note x = advance_wpos_cross [OF adv True]
  note lt = drain_cross_lt [OF c n True]
  from c lt have "idx (wpos s) < TABLESZ"
    by (auto simp: cursors_ok_def word_less_nat_alt)
  note su = idx_suc [OF this]
  from x have w': "idx (wpos s') = idx (wpos s) + 1" and r': "rpos s' = rpos s"
    and m': "\<And>j. mapped s' j = (j = idx (wpos s) + 1 \<or> mapped s j \<and> j \<noteq> idx (wpos s))"
    and o': "\<And>j. j \<noteq> idx (wpos s) + 1 \<Longrightarrow> ondisk s' j = (ondisk s j \<and> j \<noteq> idx (wpos s))"
    by simp_all
  show ?thesis
  proof (rule table_okI)
    fix j :: "32 word" assume "unat j < unat (idx (wpos s')) \<or> unat (idx (rpos s')) < unat j"
    then have o: "unat j \<le> unat (idx (wpos s)) \<or> unat (idx (rpos s)) < unat j"
      by (auto simp: r' w' su)
    then have ne: "j \<noteq> idx (wpos s) + 1" using su lt by auto
    show "\<not> mapped s' j \<and> \<not> ondisk s' j"
    proof (cases "j = idx (wpos s)")
      case True
      with ne show ?thesis by (simp add: m' o')
    next
      case False
      with o have "unat j < unat (idx (wpos s)) \<or> unat (idx (rpos s)) < unat j"
        by (auto simp: word_unat_eq_iff)
      from table_okD(1) [OF t this] ne show ?thesis by (simp add: m' o')
    qed
  next
    show "mapped s' (idx (wpos s'))" by (simp add: m' w')
  next
    from lt have "idx (rpos s) \<noteq> idx (wpos s)" by auto
    with table_okD(3) [OF t] show "mapped s' (idx (rpos s'))" by (simp add: m' r')
  next
    fix j :: "32 word" assume "unat (idx (wpos s')) < unat j" "unat j < unat (idx (rpos s'))"
    then have b: "unat (idx (wpos s)) + 1 < unat j" "unat j < unat (idx (rpos s))"
      by (simp_all add: r' w' su)
    then have ne: "j \<noteq> idx (wpos s) + 1" "j \<noteq> idx (wpos s)" using su by auto
    from b have "unat (idx (wpos s)) < unat j" by simp
    from table_okD(4) [OF t this b(2)] ne show "mapped s' j \<noteq> ondisk s' j"
      by (simp add: m' o')
  qed
qed

lemma on_readable_table:
  assumes "on_readable e s = Inr s'" "cursors_ok s" "table_ok s"
  shows "table_ok s'"
  using assms(1)
proof (cases rule: on_readable_cases)
  case eof
  with assms(3) show ?thesis by (simp add: table_ok_def)
next
  case (data bs p s1)
  let ?s = "s1\<lparr>stdin_read := stdin_read s1 @ bs\<rparr>"
  from data(4) have fr: "rpos s1 = rpos s" "wpos s1 = wpos s" "eof_seen s1 = eof_seen s"
    "ntoread s1 = ntoread s" "mapped s1 = mapped s" "ondisk s1 = ondisk s"
    by (auto elim!: store_bytes_E)
  from assms(2) have c: "cursors_ok ?s" by (simp add: cursors_ok_def fr)
  from assms(3) have t: "table_ok ?s" by (simp add: table_ok_def fr)
  from advance_rpos_table [OF data(5) c t] show ?thesis .
qed

lemma avail_stdout_written [simp]: "avail (s\<lparr>stdout_written := x\<rparr>) = avail s"
  by (simp add: avail_def)

lemma on_writable_table:
  assumes "on_writable e s = Inr s'" "cursors_ok s" "table_ok s"
    "\<forall>n. ev_write e = Write_count n \<longrightarrow> n \<le> avail s"
  shows "table_ok s'"
  using assms(1)
proof (cases rule: on_writable_cases)
  case (1 n p bs)
  let ?s = "s\<lparr>stdout_written := stdout_written s @ bs\<rparr>"
  from assms(2) have c: "cursors_ok ?s" by (simp add: cursors_ok_def)
  from assms(3) have t: "table_ok ?s" by (simp add: table_ok_def)
  from assms(4) 1(1) have n: "n \<le> avail ?s" by simp
  from advance_wpos_table [OF 1(4) c t n] show ?thesis .
qed

lemma iter_table:
  assumes "iter e s = Inr s'" "cursors_ok s" "ntowrite_ok s" "posix e s" "table_ok s"
  shows "table_ok s'"
  using assms(1)
proof (cases rule: iter_cases)
  case (1 r w s1 s2)
  have a1: "cursors_ok s1 \<and> wpos s1 = wpos s \<and> lex_le (rpos s) (rpos s1)"
    using 1(2) on_readable_cursors [OF _ assms(2) _ assms(4), of s1] assms(2)
    by (auto split: if_splits)
  have t1: "table_ok s1"
    using 1(2) on_readable_table [OF _ assms(2,5), where s' = s1] assms(5) by (auto split: if_splits)
  from a1 have "avail s \<le> avail s1" using avail_mono [OF assms(2), of s1] by simp
  with assms(4) ntowrite_avail [OF assms(2,3)]
  have "\<forall>n. ev_write e = Write_count n \<longrightarrow> n \<le> avail s1"
    by (auto simp: posix_def)
  with 1(3) a1 t1 on_writable_table [of e s1 s2] have "table_ok s2"
    by (auto split: if_splits)
  with 1(4) show ?thesis by (simp add: table_ok_def)
qed

lemma main_loop_table:
  assumes "main_loop es s = Inr s'" "cursors_ok s" "ntowrite_ok s" "posix_run es s" "table_ok s"
  shows "table_ok s'"
  using assms
proof (induction es arbitrary: s)
  case Nil
  then show ?case by simp
next
  case (Cons e es)
  show ?case
  proof (cases "ntoread s \<noteq> 0 \<or> ntowrite s \<noteq> 0")
    case False
    with Cons.prems show ?thesis by simp
  next
    case True
    with Cons.prems obtain s1 where s1: "iter e s = Inr s1" and rest: "main_loop es s1 = Inr s'"
      by (auto simp: bind_ok_eq_Inr)
    from True Cons.prems s1 have px: "posix e s" "posix_run es s1" by auto
    from iter_cursors [OF s1 Cons.prems(2,3) px(1)]
    have c: "cursors_ok s1" "ntowrite_ok s1" by simp_all
    note t = iter_table [OF s1 Cons.prems(2,3) px(1) Cons.prems(5)]
    from Cons.IH [OF rest c px(2) t] show ?thesis .
  qed
qed

text \<open>After the start on a zero-filled table, slot 0 is mapped and nothing else is.\<close>

lemma startup_table:
  assumes "startup b = Inr s0" "table0 b = (\<lambda>_. 0)"
  shows "table_ok s0"
  using assms
  apply (clarsimp simp: startup_def bind_ok_eq_Inr split: if_splits option.splits)
  apply (erule page_pin_E)
  apply (auto simp: table_ok_def mapped_def ondisk_def)
  done

lemma run_table:
  assumes "posix_main b es" "run b es = Inr s" "table0 b = (\<lambda>_. 0)"
  shows "table_ok s"
proof -
  from assms(2) obtain s0 where s0: "startup b = Inr s0" and l: "main_loop es s0 = Inr s"
    by (auto simp: run_def bind_ok_eq_Inr)
  from assms(1) s0 have p: "posix_run es s0" by (simp add: posix_main_def)
  from startup_cursors [OF s0] have "cursors_ok s0" "ntowrite_ok s0" by simp_all
  from main_loop_table [OF l this p startup_table [OF s0 assms(3)]] show ?thesis .
qed

text \<open>
  C2, as stated, fails. On a machine that reports less than 32 MiB of memory the budget
  \<^verbatim>\<open>nfree\<close> is 0 and every page is created on disk. After two reads of a full page
  the intake cursor is in page 2 and the drain cursor still in page 0; page 1 was
  unpinned at line 155 when the intake cursor left it, so it lies between the cursors
  and is not mapped (its state is \<^verbatim>\<open>PAGE_ONDISK\<close> alone).
\<close>

theorem unmapped_slot_between_cursors:
  "\<exists>s. posix_main (boot_with 0)
         [io True (replicate 16777216 0) False 0, io True (replicate 16777216 0) False 0]
     \<and> run (boot_with 0)
         [io True (replicate 16777216 0) False 0, io True (replicate 16777216 0) False 0]
       = Inr s
     \<and> idx (wpos s) = 0 \<and> idx (rpos s) = 2 \<and> states s 1 AND PAGE_MAPPED = 0
     \<and> states s 1 = PAGE_ONDISK"
  by (simp add: run_eval)

text \<open>
  C2, amended: at every iteration boundary of a run that started on a zero-filled state
  table, no slot outside the range from the drain cursor's index to the intake cursor's
  index has the \<^verbatim>\<open>MAPPED\<close> bit; the slots at the two cursors' indices have it; and a
  slot strictly between the two has it exactly when it is not \<^verbatim>\<open>ON_DISK\<close> (a page on
  disk is unmapped when the intake cursor leaves it and mapped again when the drain
  cursor enters it; a page in memory stays mapped).
\<close>

theorem mapped_slots:
  assumes "posix_main b es" and "run b es = Inr s" and "table0 b = (\<lambda>_. 0)"
  shows "(\<forall>i. mapped s i \<longrightarrow> idx (wpos s) \<le> i \<and> i \<le> idx (rpos s))
    \<and> mapped s (idx (wpos s)) \<and> mapped s (idx (rpos s))
    \<and> (\<forall>i. idx (wpos s) < i \<and> i < idx (rpos s) \<longrightarrow> (mapped s i \<longleftrightarrow> \<not> ondisk s i))"
proof -
  from run_table [OF assms] have t: "table_ok s" .
  have "idx (wpos s) \<le> i \<and> i \<le> idx (rpos s)" if "mapped s i" for i
    using t that by (auto simp: table_ok_def not_less [symmetric])
  with t show ?thesis by (auto simp: table_ok_def)
qed

theorem mapped_slots_witness:
  "\<exists>s. posix_main (boot_with 0)
         [io True (replicate 16777216 0) False 0, io True (replicate 16777216 0) False 0]
     \<and> run (boot_with 0)
         [io True (replicate 16777216 0) False 0, io True (replicate 16777216 0) False 0]
       = Inr s
     \<and> table0 (boot_with 0) = (\<lambda>_. 0)
     \<and> (\<forall>i. mapped s i \<longrightarrow> idx (wpos s) \<le> i \<and> i \<le> idx (rpos s))
     \<and> mapped s (idx (wpos s)) \<and> mapped s (idx (rpos s))
     \<and> (\<forall>i. idx (wpos s) < i \<and> i < idx (rpos s) \<longrightarrow> (mapped s i \<longleftrightarrow> \<not> ondisk s i))"
proof -
  let ?es = "[io True (replicate 16777216 0) False 0, io True (replicate 16777216 0) False 0]"
  have "\<exists>s. posix_main (boot_with 0) ?es \<and> run (boot_with 0) ?es = Inr s"
    by (simp add: run_eval)
  then obtain s where h: "posix_main (boot_with 0) ?es" "run (boot_with 0) ?es = Inr s"
    by blast
  have z: "table0 (boot_with 0) = (\<lambda>_. 0)" by (simp add: boot_with_def)
  from mapped_slots [OF h z] h z show ?thesis by blast
qed

section \<open>Properties that every step keeps\<close>

lemma intake_stableD:
  assumes "intake_stable P"
  shows "\<And>m i s s'. page_unpin m i s = Inr s' \<Longrightarrow> P s \<Longrightarrow> P s'"
    "\<And>e i s s'. page_pin e i s = Inr s' \<Longrightarrow> P s \<Longrightarrow> P s'"
    "\<And>p bs s s'. store_bytes p bs s = Inr s' \<Longrightarrow> P s \<Longrightarrow> P s'"
    "\<And>s x. P s \<Longrightarrow> P (s\<lparr>rpos := x\<rparr>)"
    "\<And>s x. P s \<Longrightarrow> P (s\<lparr>wpos := x\<rparr>)"
    "\<And>s x. P s \<Longrightarrow> P (s\<lparr>ntoread := x\<rparr>)"
    "\<And>s x. P s \<Longrightarrow> P (s\<lparr>ntowrite := x\<rparr>)"
    "\<And>s x. P s \<Longrightarrow> P (s\<lparr>stdin_read := x\<rparr>)"
    "\<And>s x. P s \<Longrightarrow> P (s\<lparr>stdout_written := x\<rparr>)"
    "\<And>s x. P s \<Longrightarrow> P (s\<lparr>eof_seen := x\<rparr>)"
proof -
  from assms have a: "\<forall>m i s s'. page_unpin m i s = Inr s' \<longrightarrow> P s \<longrightarrow> P s'"
    and c: "\<forall>e i s s'. page_pin e i s = Inr s' \<longrightarrow> P s \<longrightarrow> P s'"
    and d: "\<forall>p bs s s'. store_bytes p bs s = Inr s' \<longrightarrow> P s \<longrightarrow> P s'"
    and e: "\<forall>s x. P s \<longrightarrow> P (s\<lparr>rpos := x\<rparr>)" "\<forall>s x. P s \<longrightarrow> P (s\<lparr>wpos := x\<rparr>)"
      "\<forall>s x. P s \<longrightarrow> P (s\<lparr>ntoread := x\<rparr>)" "\<forall>s x. P s \<longrightarrow> P (s\<lparr>ntowrite := x\<rparr>)"
      "\<forall>s x. P s \<longrightarrow> P (s\<lparr>stdin_read := x\<rparr>)" "\<forall>s x. P s \<longrightarrow> P (s\<lparr>stdout_written := x\<rparr>)"
      "\<forall>s x. P s \<longrightarrow> P (s\<lparr>eof_seen := x\<rparr>)"
    unfolding intake_stable_def by simp_all
  show "\<And>m i s s'. page_unpin m i s = Inr s' \<Longrightarrow> P s \<Longrightarrow> P s'" using a by blast
  show "\<And>e i s s'. page_pin e i s = Inr s' \<Longrightarrow> P s \<Longrightarrow> P s'" using c by blast
  show "\<And>p bs s s'. store_bytes p bs s = Inr s' \<Longrightarrow> P s \<Longrightarrow> P s'" using d by blast
  show "\<And>s x. P s \<Longrightarrow> P (s\<lparr>rpos := x\<rparr>)" using e(1) by blast
  show "\<And>s x. P s \<Longrightarrow> P (s\<lparr>wpos := x\<rparr>)" using e(2) by blast
  show "\<And>s x. P s \<Longrightarrow> P (s\<lparr>ntoread := x\<rparr>)" using e(3) by blast
  show "\<And>s x. P s \<Longrightarrow> P (s\<lparr>ntowrite := x\<rparr>)" using e(4) by blast
  show "\<And>s x. P s \<Longrightarrow> P (s\<lparr>stdin_read := x\<rparr>)" using e(5) by blast
  show "\<And>s x. P s \<Longrightarrow> P (s\<lparr>stdout_written := x\<rparr>)" using e(6) by blast
  show "\<And>s x. P s \<Longrightarrow> P (s\<lparr>eof_seen := x\<rparr>)" using e(7) by blast
qed



lemma advance_rpos_stable:
  assumes "intake_stable P" "advance_rpos e n s = Inr s'" "P s"
  shows "P s'"
proof -
  note st = intake_stableD [OF assms(1)]
  define s1 where "s1 = s\<lparr>rpos := (rpos s)\<lparr>off := off (rpos s) + of_nat n\<rparr>\<rparr>"
  have p1: "P s1" unfolding s1_def by (rule st(4) [OF assms(3)])
  from assms(2) obtain s5 where
    s5: "(if off (rpos s1) = PAGESZ then
           bind_ok (if idx (rpos s1) \<noteq> idx (wpos s1)
                    then page_unpin (ev_read_munmap_ok e) (idx (rpos s1)) s1 else Inr s1)
             (\<lambda>s2.
                let s3 = s2\<lparr>rpos := (rpos s2)\<lparr>idx := idx (rpos s2) + 1\<rparr>\<rparr> in
                if idx (rpos s3) \<ge> TABLESZ then Inl Out_of_pages
                else bind_ok (page_pin (ev_read_pin e) (idx (rpos s3)) s3)
                       (\<lambda>s4. Inr (s4\<lparr>rpos := (rpos s4)\<lparr>off := 0\<rparr>\<rparr>)))
         else Inr s1) = Inr s5"
    and s': "s' = s5\<lparr>ntoread := ucast (PAGESZ - off (rpos s5))\<rparr>"
    unfolding advance_rpos_def Let_def s1_def [symmetric]
    by (auto simp: bind_ok_eq_Inr)
  have "P s5"
  proof (cases "off (rpos s1) = PAGESZ")
    case False
    with s5 p1 show ?thesis by simp
  next
    case True
    with s5 obtain s2 s4 where
      s2: "(if idx (rpos s1) \<noteq> idx (wpos s1)
            then page_unpin (ev_read_munmap_ok e) (idx (rpos s1)) s1 else Inr s1) = Inr s2"
      and s4: "page_pin (ev_read_pin e) (idx (rpos s2) + 1)
                 (s2\<lparr>rpos := (rpos s2)\<lparr>idx := idx (rpos s2) + 1\<rparr>\<rparr>) = Inr s4"
      and e5: "s5 = s4\<lparr>rpos := (rpos s4)\<lparr>off := 0\<rparr>\<rparr>"
      by (auto simp: bind_ok_eq_Inr Let_def split: if_splits)
    from s2 p1 have "P s2" by (auto split: if_splits dest: st(1))
    then have "P (s2\<lparr>rpos := (rpos s2)\<lparr>idx := idx (rpos s2) + 1\<rparr>\<rparr>)" by (rule st(4))
    from st(2) [OF s4 this] have "P s4" .
    then show ?thesis unfolding e5 by (rule st(4))
  qed
  then show ?thesis unfolding s' by (rule st(6))
qed


lemma on_readable_stable:
  assumes "intake_stable P" "on_readable e s = Inr s'" "P s"
  shows "P s'"
  using assms(2)
proof (cases rule: on_readable_cases)
  case eof
  note st = intake_stableD [OF assms(1)]
  from st(6) [OF assms(3)] have "P (s\<lparr>ntoread := 0\<rparr>)" .
  from st(10) [OF this, of True] eof(2) show ?thesis by simp
next
  case (data bs p s1)
  note st = intake_stableD [OF assms(1)]
  from st(3) [OF data(4) assms(3)] have "P s1" .
  then have "P (s1\<lparr>stdin_read := stdin_read s1 @ bs\<rparr>)" by (rule st(8))
  from advance_rpos_stable [OF assms(1) data(5) this] show ?thesis .
qed




section \<open>The counters\<close>



















section \<open>The budget after a spill\<close>

lemma memory_only_frame [simp]:
  "memory_only (s\<lparr>rpos := r\<rparr>) = memory_only s" "memory_only (s\<lparr>wpos := r\<rparr>) = memory_only s"
  "memory_only (s\<lparr>ntoread := x\<rparr>) = memory_only s"
  "memory_only (s\<lparr>ntowrite := x\<rparr>) = memory_only s"
  "memory_only (s\<lparr>stdin_read := bs\<rparr>) = memory_only s"
  "memory_only (s\<lparr>stdout_written := bs\<rparr>) = memory_only s"
  "memory_only (s\<lparr>eof_seen := b\<rparr>) = memory_only s"
  by (rule ext, simp add: memory_only_def)+

lemma page_pin_nfree:
  assumes "page_pin e i s = Inr s'"
  shows "nfree s = 0 \<Longrightarrow> nfree s' = 0"
    "\<not> mapped s i \<Longrightarrow> \<not> ondisk s i \<Longrightarrow> ondisk s' i \<Longrightarrow> nfree s' = 0"
    "\<not> mapped s i \<Longrightarrow> \<not> ondisk s i \<Longrightarrow>
       ondisk s' i \<longleftrightarrow> nfree s = 0 \<or> mmap_anon e \<noteq> Mmap_ok"
  using page_pin_Inr [OF assms]
  by (auto simp: ondisk_def mapped_def split: if_splits)

lemma page_unpin_no_new_memory:
  assumes "page_unpin m i t = Inr t'" "no_new_memory s t"
  shows "no_new_memory s t'"
  using assms(1)
proof (rule page_unpin_E)
  assume "nfree t' = nfree t" "mapped t' = (\<lambda>j. mapped t j \<and> \<not> (j = i \<and> ondisk t i))"
    "ondisk t' = ondisk t"
  with assms(2) show ?thesis by (auto simp: no_new_memory_def memory_only_def)
qed

lemma page_pin_no_new_memory:
  assumes "page_pin e i t = Inr t'" "no_new_memory s t"
  shows "no_new_memory s t'"
  using assms(1)
proof (rule page_pin_E)
  assume m: "mapped t' = (\<lambda>j. mapped t j \<or> j = i)"
    and o: "ondisk t' = (\<lambda>j. if j = i \<and> \<not> mapped t i \<and> \<not> ondisk t i
                        then \<not> (nfree t \<noteq> 0 \<and> mmap_anon e = Mmap_ok) else ondisk t j)"
  from assms(2) have z: "nfree t = 0" by (simp add: no_new_memory_def)
  from page_pin_nfree(1) [OF assms(1) z] have z': "nfree t' = 0" .
  have "memory_only t j" if "memory_only t' j" for j
    using that z by (auto simp: memory_only_def m o split: if_splits)
  with assms(2) z' show ?thesis by (auto simp: no_new_memory_def)
qed

lemma page_free_no_new_memory:
  assumes "page_free u m i t = Inr t'" "no_new_memory s t" "\<not> memory_only t i"
  shows "no_new_memory s t'"
  using assms(1)
proof (rule page_free_E)
  assume "nfree t' = (if mapped t i \<and> \<not> ondisk t i then nfree t + 1 else nfree t)"
    "mapped t' = (\<lambda>j. mapped t j \<and> j \<noteq> i)" "ondisk t' = (\<lambda>j. ondisk t j \<and> j \<noteq> i)"
  with assms(2,3) show ?thesis by (auto simp: no_new_memory_def memory_only_def)
qed

lemma store_bytes_no_new_memory:
  assumes "store_bytes p bs t = Inr t'" "no_new_memory s t"
  shows "no_new_memory s t'"
  using assms(1)
proof (rule store_bytes_E)
  assume "nfree t' = nfree t" "mapped t' = mapped t" "ondisk t' = ondisk t"
  with assms(2) show ?thesis by (simp add: no_new_memory_def memory_only_def)
qed

lemma intake_stable_no_new_memory: "intake_stable (no_new_memory s)"
  unfolding intake_stable_def
  by (intro conjI allI impI; (erule (1) page_unpin_no_new_memory page_pin_no_new_memory
        store_bytes_no_new_memory)?; (simp add: no_new_memory_def)?)

lemma advance_wpos_no_new_memory:
  assumes adv: "advance_wpos e n t = Inr t'" and nn: "no_new_memory s t"
    and g: "idx (wpos t') \<noteq> idx (wpos t) \<longrightarrow> \<not> memory_only s (idx (wpos t))"
  shows "no_new_memory s t'"
proof -
  note st = intake_stableD [OF intake_stable_no_new_memory [of s]]
  define t1 where "t1 = t\<lparr>wpos := (wpos t)\<lparr>off := off (wpos t) + of_nat n\<rparr>\<rparr>"
  have p1: "no_new_memory s t1" unfolding t1_def by (rule st(5) [OF nn])
  show ?thesis
  proof (cases "off (wpos t1) = PAGESZ")
    case False
    with adv have "t' = t1"
      unfolding advance_wpos_def Let_def t1_def [symmetric] by simp
    with p1 show ?thesis by simp
  next
    case True
    then have c: "off (wpos t) + of_nat n = PAGESZ" by (simp add: t1_def)
    from advance_wpos_cross [OF adv c] have "idx (wpos t') \<noteq> idx (wpos t)" by simp
    with g have nm: "\<not> memory_only s (idx (wpos t))" by simp
    from adv True obtain t2 t3 t5 where
      t2: "page_unpin (ev_write_munmap_ok e) (idx (wpos t1)) t1 = Inr t2"
      and t3: "page_free (ev_unlink_ok e) (ev_free_munmap_ok e) (idx (wpos t2)) t2 = Inr t3"
      and t5: "page_pin (ev_write_pin e) (idx (wpos t3) + 1)
                 (t3\<lparr>wpos := (wpos t3)\<lparr>idx := idx (wpos t3) + 1\<rparr>\<rparr>) = Inr t5"
      and e': "t' = t5\<lparr>wpos := (wpos t5)\<lparr>off := 0\<rparr>\<rparr>"
      unfolding advance_wpos_def Let_def t1_def [symmetric]
      by (auto simp: bind_ok_eq_Inr)
    from st(1) [OF t2 p1] have p2: "no_new_memory s t2" .
    from t2 have "idx (wpos t2) = idx (wpos t)" by (auto elim: page_unpin_E simp: t1_def)
    with p2 nm have "\<not> memory_only t2 (idx (wpos t2))" by (auto simp: no_new_memory_def)
    from page_free_no_new_memory [OF t3 p2 this] have "no_new_memory s t3" .
    then have "no_new_memory s (t3\<lparr>wpos := (wpos t3)\<lparr>idx := idx (wpos t3) + 1\<rparr>\<rparr>)"
      by (rule st(5))
    from st(2) [OF t5 this] have "no_new_memory s t5" .
    then show ?thesis unfolding e' by (rule st(5))
  qed
qed

lemma iter_no_new_memory:
  assumes it: "iter e s = Inr s'" and c: "cursors_ok s" and p: "posix e s"
    and nn: "no_new_memory s0 s"
    and g: "idx (wpos s') \<noteq> idx (wpos s) \<longrightarrow> \<not> memory_only s0 (idx (wpos s))"
  shows "no_new_memory s0 s'"
  using it
proof (cases rule: iter_cases)
  case (1 r w s1 s2)
  note st = intake_stableD [OF intake_stable_no_new_memory [of s0]]
  have w1: "wpos s1 = wpos s"
    using 1(2) on_readable_cursors [OF _ c _ p, of s1] by (auto split: if_splits)
  from 1(2) nn have n1: "no_new_memory s0 s1"
    by (auto split: if_splits dest: on_readable_stable [OF intake_stable_no_new_memory])
  have "no_new_memory s0 s2"
  proof (cases "ntowrite s \<noteq> 0 \<and> w")
    case False
    with 1(3) n1 show ?thesis by simp
  next
    case True
    with 1(3) have "on_writable e s1 = Inr s2" by simp
    then show ?thesis
    proof (cases rule: on_writable_cases)
      case (1 n q bs)
      let ?t = "s1\<lparr>stdout_written := stdout_written s1 @ bs\<rparr>"
      from n1 have a: "no_new_memory s0 ?t" by (rule st(9))
      from g \<open>s' = _\<close> w1
      have "idx (wpos s2) \<noteq> idx (wpos ?t) \<longrightarrow> \<not> memory_only s0 (idx (wpos ?t))" by simp
      from advance_wpos_no_new_memory [OF 1(4) a this] show ?thesis .
    qed
  qed
  then show ?thesis unfolding 1(4) by (rule st(7))
qed


lemma lex_le_idx: "lex_le a b \<Longrightarrow> idx a \<le> idx b"
  by (auto simp: lex_le_def)

lemma main_loop_no_new_memory:
  assumes "main_loop es s = Inr s'" "cursors_ok s" "ntowrite_ok s" "posix_run es s"
    "no_new_memory s0 s"
    "\<forall>j. idx (wpos s) \<le> j \<and> j < idx (wpos s') \<longrightarrow> \<not> memory_only s0 j"
  shows "no_new_memory s0 s'"
  using assms
proof (induction es arbitrary: s)
  case Nil
  then show ?case by simp
next
  case (Cons e es)
  show ?case
  proof (cases "ntoread s \<noteq> 0 \<or> ntowrite s \<noteq> 0")
    case False
    with Cons.prems show ?thesis by simp
  next
    case True
    with Cons.prems obtain s1 where s1: "iter e s = Inr s1" and rest: "main_loop es s1 = Inr s'"
      by (auto simp: bind_ok_eq_Inr)
    from True Cons.prems s1 have px: "posix e s" "posix_run es s1" by auto
    from iter_cursors [OF s1 Cons.prems(2,3) px(1)]
    have c: "cursors_ok s1" "ntowrite_ok s1" and m1: "idx (wpos s) \<le> idx (wpos s1)"
      by (simp_all add: lex_le_idx)
    from main_loop_cursors [OF rest c px(2)] have m2: "idx (wpos s1) \<le> idx (wpos s')"
      by (simp add: lex_le_idx)
    have "idx (wpos s1) \<noteq> idx (wpos s) \<longrightarrow> \<not> memory_only s0 (idx (wpos s))"
    proof
      assume "idx (wpos s1) \<noteq> idx (wpos s)"
      with m1 m2 have "idx (wpos s) \<le> idx (wpos s) \<and> idx (wpos s) < idx (wpos s')" by auto
      with Cons.prems(6) show "\<not> memory_only s0 (idx (wpos s))" by blast
    qed
    from iter_no_new_memory [OF s1 Cons.prems(2) px(1) Cons.prems(5) this]
    have n1: "no_new_memory s0 s1" .
    from Cons.prems(6) m1
    have "\<forall>j. idx (wpos s1) \<le> j \<and> j < idx (wpos s') \<longrightarrow> \<not> memory_only s0 j" by auto
    from Cons.IH [OF rest c px(2) n1 this] show ?thesis .
  qed
qed

text \<open>
  C3, as stated, fails. On a machine with 128 MiB the budget \<^verbatim>\<open>nfree\<close> starts at 4, and
  page 0 is placed in anonymous memory. The first iteration reads a full page and the
  anonymous \<^verbatim>\<open>mmap\<close> for page 1 fails with \<^verbatim>\<open>ENOMEM\<close>: \<^verbatim>\<open>nfree\<close> is forced to 0 and
  page 1 is created on disk. The second iteration writes page 0 out; \<^verbatim>\<open>page_free\<close>
  releases it and increments \<^verbatim>\<open>nfree\<close> to 1 (line 308). The third iteration reads
  another full page, and the new page 2 is placed in anonymous memory, not on disk.
\<close>

theorem anonymous_page_after_spill:
  "\<exists>s1 s2 s3.
     posix_main (boot_with 0x8000000)
       [io_enomem (replicate 16777216 0), io False [] True 16777216,
        io True (replicate 16777216 0) False 0]
     \<and> run (boot_with 0x8000000) [io_enomem (replicate 16777216 0)] = Inr s1
     \<and> states s1 1 = PAGE_MAPPED OR PAGE_ONDISK \<and> nfree s1 = 0
     \<and> run (boot_with 0x8000000)
          [io_enomem (replicate 16777216 0), io False [] True 16777216] = Inr s2
     \<and> nfree s2 = 1 \<and> states s2 2 = 0
     \<and> run (boot_with 0x8000000)
          [io_enomem (replicate 16777216 0), io False [] True 16777216,
           io True (replicate 16777216 0) False 0] = Inr s3
     \<and> states s3 2 = PAGE_MAPPED"
  by (simp add: run_eval io_enomem_def)

text \<open>
  C3, amended: take two iteration boundaries of a run, \<open>s\<close> and a later \<open>s'\<close>, with
  \<^verbatim>\<open>nfree\<close> 0 at \<open>s\<close> (as it is right after a page has been created on disk,
  \<open>page_pin_nfree\<close>). If none of the pages that the drain cursor has left in between
  lived in anonymous memory, then \<^verbatim>\<open>nfree\<close> is 0 at \<open>s'\<close> and every page that lives in
  anonymous memory at \<open>s'\<close> did so at \<open>s\<close> already: every page materialised in between
  was created on disk. (When the drain cursor leaves a page in anonymous memory,
  \<^verbatim>\<open>page_free\<close> increments \<^verbatim>\<open>nfree\<close>, and the next new page is placed in memory again.)
\<close>

theorem spill_until_memory_freed:
  assumes "posix_main b (es1 @ es2)" and "run b es1 = Inr s" and "run b (es1 @ es2) = Inr s'"
    and "nfree s = 0"
    and "\<forall>j. idx (wpos s) \<le> j \<and> j < idx (wpos s') \<longrightarrow> \<not> memory_only s j"
  shows "nfree s' = 0 \<and> (\<forall>j. memory_only s' j \<longrightarrow> memory_only s j)"
proof -
  from posix_main_append [OF assms(1)] assms(2)
  have p: "posix_main b es1" "posix_run es2 s" by simp_all
  note c = run_cursors [OF p(1) assms(2)]
  from assms(2,3) have l: "main_loop es2 s = Inr s'" by (simp add: run_append)
  from assms(4) have "no_new_memory s s" by (simp add: no_new_memory_def)
  from main_loop_no_new_memory [OF l c p(2) this assms(5)]
  show ?thesis by (simp add: no_new_memory_def)
qed

theorem spill_until_memory_freed_witness:
  "\<exists>s s'.
     posix_main (boot_with 0)
       ([io True (replicate 16777216 0) False 0]
        @ [io False [] True 16777216, io True (replicate 16777216 0) False 0])
     \<and> run (boot_with 0) [io True (replicate 16777216 0) False 0] = Inr s
     \<and> run (boot_with 0)
         ([io True (replicate 16777216 0) False 0]
          @ [io False [] True 16777216, io True (replicate 16777216 0) False 0]) = Inr s'
     \<and> nfree s = 0
     \<and> (\<forall>j. idx (wpos s) \<le> j \<and> j < idx (wpos s') \<longrightarrow> \<not> memory_only s j)
     \<and> idx (wpos s) = 0 \<and> idx (wpos s') = 1 \<and> states s' 2 = PAGE_MAPPED OR PAGE_ONDISK
     \<and> nfree s' = 0 \<and> (\<forall>j. memory_only s' j \<longrightarrow> memory_only s j)"
proof -
  let ?es1 = "[io True (replicate 16777216 0) False 0]"
  let ?es2 = "[io False [] True 16777216, io True (replicate 16777216 0) False 0]"
  have "\<exists>s s'. (posix_main (boot_with 0) (?es1 @ ?es2)
     \<and> run (boot_with 0) ?es1 = Inr s \<and> run (boot_with 0) (?es1 @ ?es2) = Inr s'
     \<and> nfree s = 0)
     \<and> (\<forall>j. \<not> memory_only s j) \<and> idx (wpos s) = 0 \<and> idx (wpos s') = 1
     \<and> states s' 2 = PAGE_MAPPED OR PAGE_ONDISK"
    by (simp add: run_eval memory_only_def mapped_def ondisk_def)
  then obtain s s' where h: "posix_main (boot_with 0) (?es1 @ ?es2)"
    "run (boot_with 0) ?es1 = Inr s" "run (boot_with 0) (?es1 @ ?es2) = Inr s'" "nfree s = 0"
    and m: "\<forall>j. \<not> memory_only s j"
    and r: "idx (wpos s) = 0" "idx (wpos s') = 1" "states s' 2 = PAGE_MAPPED OR PAGE_ONDISK"
    by blast
  from m have g: "\<forall>j. idx (wpos s) \<le> j \<and> j < idx (wpos s') \<longrightarrow> \<not> memory_only s j" by simp
  from spill_until_memory_freed [OF h g] h g r show ?thesis by blast
qed

section \<open>The spool file of the last page\<close>

text \<open>
  C4 does not hold of the code. \<^verbatim>\<open>page_free\<close> unlinks the spool file of a page when the
  drain cursor leaves the page; the page in which the two cursors meet at the end is
  never left, and \<^verbatim>\<open>main\<close> returns at line 186 without freeing it. In the run below
  (128 MiB reported, so a budget of 4 pages) the anonymous \<^verbatim>\<open>mmap\<close> for page 1 fails with
  \<^verbatim>\<open>ENOMEM\<close> and page 1 is created on disk; the second iteration reads end of input
  and writes page 0 out. The loop exits, \<^verbatim>\<open>main\<close> returns 0, and the file
  \<^verbatim>\<open>/tmp/petabuf.1\<close> is still there.
\<close>

theorem spool_file_left_behind:
  "\<exists>s. main no_args (boot_with 0x8000000)
         [io_enomem (replicate 16777216 0), io True [] True 16777216] = Returned 0 s
     \<and> posix_main (boot_with 0x8000000)
         [io_enomem (replicate 16777216 0), io True [] True 16777216]
     \<and> rpos s = wpos s \<and> idx (wpos s) = 1
     \<and> spool 1 = ''/tmp/petabuf.1'' \<and> files s ''/tmp/petabuf.1'' \<noteq> None"
  by (simp add: main_def no_args_def loop_exited_def run_eval io_enomem_def)

end
